theory Spec2Isabelle
  imports Main "HOL-Library.Sublist"
begin

section \<open>JavaScript values and completions\<close>

text \<open>
  The engine of \<^verbatim>\<open>PropertyInterceptor.js\<close> never computes with the values that flow
  through a field. It observes three things only: whether a value is \<^verbatim>\<open>undefined\<close>
  (line 40), whether \<^verbatim>\<open>typeof\<close> gives \<^verbatim>\<open>"function"\<close> (lines 108, 144) and whether two values
  are strictly equal (line 60). Finite numbers are therefore kept as integers (the two
  zeros are one value, as \<^verbatim>\<open>===\<close> sees them), \<^verbatim>\<open>NaN\<close> is a value of its own, and objects and
  functions are references.
\<close>

datatype jsval =
    JUndefined
  | JNull
  | JBool bool
  | JNumber int
  | JNaN
  | JString string
  | JFunction nat
  | JObject nat

text \<open>\<^verbatim>\<open>typeof(value)==="function"\<close>\<close>

fun is_function :: "jsval \<Rightarrow> bool" where
  "is_function (JFunction f) = True"
| "is_function v = False"

text \<open>\<^verbatim>\<open>a === b\<close>: \<^verbatim>\<open>NaN\<close> is equal to nothing, itself included.\<close>

fun strict_eq :: "jsval \<Rightarrow> jsval \<Rightarrow> bool" where
  "strict_eq JNaN b = False"
| "strict_eq a JNaN = False"
| "strict_eq a b = (a = b)"

text \<open>
  A call either returns a value or throws one. Caller-supplied code (callbacks, and
  accessor functions that were on the field before the engine) acts on a world \<open>'w\<close>
  of its own (a log, a counter), disjoint from the state of the intercepted field: by the
  convention of the source (header comment, point 3) a callback does not touch the
  property it is called on.
\<close>

datatype exn = Thrown jsval

type_synonym 'w callback = "nat \<Rightarrow> string \<Rightarrow> jsval \<Rightarrow> 'w \<Rightarrow> (exn + jsval) \<times> 'w"
type_synonym 'w handler = "jsval \<Rightarrow> 'w \<Rightarrow> (exn + jsval) \<times> 'w"
type_synonym 'w getter = "'w \<Rightarrow> (exn + jsval) \<times> 'w"
type_synonym 'w setter = "jsval \<Rightarrow> 'w \<Rightarrow> (exn + jsval) \<times> 'w"

section \<open>The state of a field\<close>

text \<open>
  The engine keeps its state as properties of the accessor functions it creates:
  \<^verbatim>\<open>descriptor.get.value\<close>, \<^verbatim>\<open>descriptor.get.after\<close>, \<^verbatim>\<open>descriptor.get.oldGet\<close> on the
  getter and \<^verbatim>\<open>descriptor.set.before\<close>, \<^verbatim>\<open>descriptor.set.after\<close>, \<^verbatim>\<open>descriptor.set.oldset\<close>
  on the setter.
\<close>

record 'w get_props =
  get_value :: jsval
  get_after :: "'w handler list"
  get_oldGet :: "'w getter option"

record 'w set_props =
  set_before :: "'w handler list"
  set_after :: "'w handler list"
  set_oldset :: "'w setter option"

datatype 'w getfn = ForeignGet "'w getter" | EngineGet "'w get_props"

datatype 'w setfn = ForeignSet "'w setter" | EngineSet "'w set_props"

text \<open>
  One own property of one object. An engine getter is created only by the install
  routines, always followed by the creation of a setter where there is none, and an engine
  setter is created only once the descriptor holds an engine getter; the closure of either
  refers to the descriptor whose \<^verbatim>\<open>get\<close> is that engine getter. So a field is absent, a
  data property, an accessor made elsewhere, or \<open>Hooked\<close>: the engine getter with the
  setter that was there (\<open>ForeignSet\<close>) or the engine's (\<open>EngineSet\<close>). The function
  objects are written by value inside the field they are installed on. The install
  routines are written first for a field that is configurable, where
  \<^verbatim>\<open>Object.defineProperty\<close> succeeds; the failure of that call on a field that is not
  configurable is added in a section of its own.
\<close>

datatype 'w slot =
    Absent
  | DataProp jsval
  | PlainAccessor "'w getter option" "'w setter option"
  | Hooked "'w get_props" "'w setfn"

section \<open>The two accessor algorithms\<close>

text \<open>
  \<^verbatim>\<open>descriptor.get.after.forEach(function(after) { value = after(value); })\<close>, and the same
  loop over \<^verbatim>\<open>descriptor.set.before\<close>: the value is threaded through the handlers, and a
  handler that throws ends the loop.
\<close>

fun forEach_thread :: "'w handler list \<Rightarrow> jsval \<Rightarrow> 'w \<Rightarrow> (exn + jsval) \<times> 'w" where
  "forEach_thread [] value w = (Inr value, w)"
| "forEach_thread (h # hs) value w =
     (case h value w of
        (Inl e, w') \<Rightarrow> (Inl e, w')
      | (Inr value', w') \<Rightarrow> forEach_thread hs value' w')"

text \<open>
  \<^verbatim>\<open>descriptor.set.after.forEach(function(after) { after(value); })\<close>: every handler gets
  the same value and what it returns is dropped.
\<close>

fun forEach_notify :: "'w handler list \<Rightarrow> jsval \<Rightarrow> 'w \<Rightarrow> (exn + unit) \<times> 'w" where
  "forEach_notify [] value w = (Inr (), w)"
| "forEach_notify (h # hs) value w =
     (case h value w of
        (Inl e, w') \<Rightarrow> (Inl e, w')
      | (Inr r, w') \<Rightarrow> forEach_notify hs value w')"

text \<open>
  Line 40: \<^verbatim>\<open>descriptor.get.value===undefined && descriptor.get.oldGet ?
  descriptor.get.oldGet() : descriptor.get.value\<close>.
\<close>

definition start_value :: "'w get_props \<Rightarrow> 'w \<Rightarrow> (exn + jsval) \<times> 'w" where
  "start_value g w =
     (case get_oldGet g of
        Some oldGet \<Rightarrow> if get_value g = JUndefined then oldGet w else (Inr (get_value g), w)
      | None \<Rightarrow> (Inr (get_value g), w))"

text \<open>\<^verbatim>\<open>function get(descriptor)\<close>, lines 38 to 48.\<close>

definition get :: "'w get_props \<Rightarrow> 'w \<Rightarrow> (exn + jsval) \<times> 'w get_props \<times> 'w" where
  "get g w =
     (case start_value g w of
        (Inl e, w1) \<Rightarrow> (Inl e, g, w1)
      | (Inr value, w1) \<Rightarrow>
          (case forEach_thread (get_after g) value w1 of
             (Inl e, w2) \<Rightarrow> (Inl e, g, w2)
           | (Inr value', w2) \<Rightarrow> (Inr value', g\<lparr>get_value := value'\<rparr>, w2)))"

text \<open>
  \<^verbatim>\<open>function set(descriptor,value)\<close>, lines 50 to 66, on the descriptor whose \<^verbatim>\<open>get\<close> is
  the engine getter \<open>g\<close> and whose \<^verbatim>\<open>set\<close> is the engine setter \<open>s\<close>.
\<close>

definition set_js ::
  "'w get_props \<times> 'w set_props \<Rightarrow> jsval \<Rightarrow> 'w \<Rightarrow> (exn + jsval) \<times> ('w get_props \<times> 'w set_props) \<times> 'w"
where
  "set_js d value w =
     (case d of (g, s) \<Rightarrow>
        let originalvalue = get_value g in
        (case forEach_thread (set_before s) value w of
           (Inl e, w1) \<Rightarrow> (Inl e, (g, s), w1)
         | (Inr value', w1) \<Rightarrow>
             let g' = g\<lparr>get_value := value'\<rparr> in
             if \<not> strict_eq value' originalvalue then
               (case forEach_notify (set_after s) value' w1 of
                  (Inl e, w2) \<Rightarrow> (Inl e, (g', s), w2)
                | (Inr u, w2) \<Rightarrow> (Inr value', (g', s), w2))
             else (Inr value', (g', s), w1)))"

section \<open>Reading and writing a field\<close>

text \<open>
  A read of the field, \<^verbatim>\<open>object[property]\<close>, on the own property: a data property gives
  its value, an accessor the result of its getter, \<^verbatim>\<open>undefined\<close> without one. Lines 73 to
  75 (and 105 to 107, 141 to 143) compute the same from the descriptor:
  \<^verbatim>\<open>descriptor.get ? descriptor.get() : descriptor.value\<close>, where a missing descriptor is
  replaced by one without \<^verbatim>\<open>get\<close> and \<^verbatim>\<open>value\<close>. There the getter is called on the
  descriptor and not on the object (and \<open>get\<close> calls \<^verbatim>\<open>oldGet\<close> on the engine getter): an
  accessor function made elsewhere is taken not to depend on \<^verbatim>\<open>this\<close>, so that the value
  an install call reads is the value a read of the field gives.
\<close>

fun read_field :: "'w slot \<Rightarrow> 'w \<Rightarrow> (exn + jsval) \<times> 'w slot \<times> 'w" where
  "read_field Absent w = (Inr JUndefined, Absent, w)"
| "read_field (DataProp v) w = (Inr v, DataProp v, w)"
| "read_field (PlainAccessor None s) w = (Inr JUndefined, PlainAccessor None s, w)"
| "read_field (PlainAccessor (Some f) s) w =
     (case f w of (r, w') \<Rightarrow> (r, PlainAccessor (Some f) s, w'))"
| "read_field (Hooked g s) w =
     (case get g w of (r, g', w') \<Rightarrow> (r, Hooked g' s, w'))"

text \<open>
  A write of the field, \<^verbatim>\<open>object[property] = value\<close>. The result is what the setter
  function returns (the assignment expression itself evaluates to its right-hand side);
  a data property is taken to be writable, and an accessor without a setter drops the
  write.
\<close>

fun write_field :: "'w slot \<Rightarrow> jsval \<Rightarrow> 'w \<Rightarrow> (exn + jsval) \<times> 'w slot \<times> 'w" where
  "write_field Absent value w = (Inr value, DataProp value, w)"
| "write_field (DataProp v) value w = (Inr value, DataProp value, w)"
| "write_field (PlainAccessor g None) value w = (Inr value, PlainAccessor g None, w)"
| "write_field (PlainAccessor g (Some f)) value w =
     (case f value w of (r, w') \<Rightarrow> (r, PlainAccessor g (Some f), w'))"
| "write_field (Hooked g (ForeignSet f)) value w =
     (case f value w of (r, w') \<Rightarrow> (r, Hooked g (ForeignSet f), w'))"
| "write_field (Hooked g (EngineSet s)) value w =
     (case set_js (g, s) value w of (r, (g', s'), w') \<Rightarrow> (r, Hooked g' (EngineSet s'), w'))"

text \<open>\<^verbatim>\<open>descriptor.get\<close> and \<^verbatim>\<open>descriptor.set\<close> of the field's descriptor.\<close>

fun descriptor_get :: "'w slot \<Rightarrow> 'w getfn option" where
  "descriptor_get Absent = None"
| "descriptor_get (DataProp v) = None"
| "descriptor_get (PlainAccessor g s) = map_option ForeignGet g"
| "descriptor_get (Hooked g s) = Some (EngineGet g)"

fun descriptor_set :: "'w slot \<Rightarrow> 'w setfn option" where
  "descriptor_set Absent = None"
| "descriptor_set (DataProp v) = None"
| "descriptor_set (PlainAccessor g s) = map_option ForeignSet s"
| "descriptor_set (Hooked g s) = Some s"

section \<open>The install routines\<close>

text \<open>
  \<^verbatim>\<open>function(value) { return handler.callback(object,property,value); }\<close> (lines 76, 123)
  and \<^verbatim>\<open>function(value) { handler.callback(object,property,value); }\<close> (line 159), which
  returns \<^verbatim>\<open>undefined\<close>.
\<close>

definition handler :: "'w callback \<Rightarrow> nat \<Rightarrow> string \<Rightarrow> 'w handler" where
  "handler callback object property = (\<lambda>value. callback object property value)"

definition observer :: "'w callback \<Rightarrow> nat \<Rightarrow> string \<Rightarrow> 'w handler" where
  "observer callback object property =
     (\<lambda>value w. case callback object property value w of
                   (Inl e, w') \<Rightarrow> (Inl e, w')
                 | (Inr r, w') \<Rightarrow> (Inr JUndefined, w'))"

text \<open>
  Lines 111 to 117 (and 147 to 153): the engine getter that is there, or a new one that
  starts from the value just read. Lines 118 to 122 (and 87 to 92, 154 to 158): the
  setter that is there, or a new engine setter with empty chains.
\<close>

definition ensure_get :: "'w slot \<Rightarrow> jsval \<Rightarrow> 'w get_props" where
  "ensure_get slot value =
     (case descriptor_get slot of
        Some (EngineGet g) \<Rightarrow> g
      | Some (ForeignGet oldget) \<Rightarrow>
          \<lparr>get_value = value, get_after = [], get_oldGet = Some oldget\<rparr>
      | None \<Rightarrow> \<lparr>get_value = value, get_after = [], get_oldGet = None\<rparr>)"

definition ensure_set :: "'w slot \<Rightarrow> 'w setfn" where
  "ensure_set slot =
     (case descriptor_set slot of
        Some s \<Rightarrow> s
      | None \<Rightarrow> EngineSet \<lparr>set_before = [], set_after = [], set_oldset = None\<rparr>)"

text \<open>\<^verbatim>\<open>PropertyInterceptor.prototype.afterGet\<close>, lines 72 to 98.\<close>

definition afterGet ::
  "nat \<Rightarrow> string \<Rightarrow> 'w callback \<Rightarrow> 'w slot \<Rightarrow> 'w \<Rightarrow> (exn + jsval) \<times> 'w slot \<times> 'w"
where
  "afterGet object property callback slot w =
     (case read_field slot w of
        (Inl e, slot1, w1) \<Rightarrow> (Inl e, slot1, w1)
      | (Inr value, slot1, w1) \<Rightarrow>
          let h = handler callback object property;
              g = (case descriptor_get slot1 of
                     Some (EngineGet g0) \<Rightarrow> g0\<lparr>get_after := get_after g0 @ [h]\<rparr>
                   | Some (ForeignGet oldget) \<Rightarrow>
                       \<lparr>get_value = value, get_after = [h], get_oldGet = Some oldget\<rparr>
                   | None \<Rightarrow> \<lparr>get_value = value, get_after = [h], get_oldGet = None\<rparr>);
              s = ensure_set slot1
          in (Inr (JObject object), Hooked g s, w1))"

text \<open>\<^verbatim>\<open>PropertyInterceptor.prototype.beforeSet\<close>, lines 104 to 139.\<close>

definition beforeSet ::
  "nat \<Rightarrow> string \<Rightarrow> 'w callback \<Rightarrow> 'w slot \<Rightarrow> 'w \<Rightarrow> (exn + jsval) \<times> 'w slot \<times> 'w"
where
  "beforeSet object property callback slot w =
     (case read_field slot w of
        (Inl e, slot1, w1) \<Rightarrow> (Inl e, slot1, w1)
      | (Inr value, slot1, w1) \<Rightarrow>
          if is_function value then (Inr (JBool False), slot1, w1)
          else
            let g = ensure_get slot1 value;
                h = handler callback object property;
                s = (case ensure_set slot1 of
                       EngineSet s0 \<Rightarrow> EngineSet (s0\<lparr>set_before := h # set_before s0\<rparr>)
                     | ForeignSet oldset \<Rightarrow>
                         EngineSet \<lparr>set_before = [h], set_after = [], set_oldset = Some oldset\<rparr>)
            in (Inr (JObject object), Hooked g s, w1))"

text \<open>\<^verbatim>\<open>PropertyInterceptor.prototype.afterSet\<close>, lines 140 to 174.\<close>

definition afterSet ::
  "nat \<Rightarrow> string \<Rightarrow> 'w callback \<Rightarrow> 'w slot \<Rightarrow> 'w \<Rightarrow> (exn + jsval) \<times> 'w slot \<times> 'w"
where
  "afterSet object property callback slot w =
     (case read_field slot w of
        (Inl e, slot1, w1) \<Rightarrow> (Inl e, slot1, w1)
      | (Inr value, slot1, w1) \<Rightarrow>
          if is_function value then (Inr (JBool False), slot1, w1)
          else
            let g = ensure_get slot1 value;
                h = observer callback object property;
                s = (case ensure_set slot1 of
                       EngineSet s0 \<Rightarrow> EngineSet (s0\<lparr>set_after := set_after s0 @ [h]\<rparr>)
                     | ForeignSet oldset \<Rightarrow>
                         EngineSet \<lparr>set_before = [], set_after = [h], set_oldset = Some oldset\<rparr>)
            in (Inr (JObject object), Hooked g s, w1))"

section \<open>What a field holds\<close>

text \<open>
  The attributes of an intercepted field, read off the accessor functions; a field
  without the engine's accessor has no chain.
\<close>

fun cachedValue :: "'w slot \<Rightarrow> jsval" where
  "cachedValue (Hooked g s) = get_value g"
| "cachedValue slot = JUndefined"

fun afterGetChain :: "'w slot \<Rightarrow> 'w handler list" where
  "afterGetChain (Hooked g s) = get_after g"
| "afterGetChain slot = []"

fun beforeSetChain :: "'w slot \<Rightarrow> 'w handler list" where
  "beforeSetChain (Hooked g (EngineSet s)) = set_before s"
| "beforeSetChain slot = []"

fun afterSetChain :: "'w slot \<Rightarrow> 'w handler list" where
  "afterSetChain (Hooked g (EngineSet s)) = set_after s"
| "afterSetChain slot = []"

text \<open>
  A field that the engine has not touched and that has no accessor: its current value.
\<close>

fun plain_field :: "'w slot \<Rightarrow> jsval option" where
  "plain_field Absent = Some JUndefined"
| "plain_field (DataProp v) = Some v"
| "plain_field slot = None"

section \<open>Sequences of install calls\<close>

text \<open>
  A caller that makes install calls on one field, one after the other, and keeps what
  each call returned or threw.
\<close>

datatype 'w install_call =
    AfterGetCall "'w callback"
  | BeforeSetCall "'w callback"
  | AfterSetCall "'w callback"

fun install ::
  "nat \<Rightarrow> string \<Rightarrow> 'w install_call \<Rightarrow> 'w slot \<Rightarrow> 'w \<Rightarrow> (exn + jsval) \<times> 'w slot \<times> 'w"
where
  "install object property (AfterGetCall cb) slot w = afterGet object property cb slot w"
| "install object property (BeforeSetCall cb) slot w = beforeSet object property cb slot w"
| "install object property (AfterSetCall cb) slot w = afterSet object property cb slot w"

fun install_all ::
  "nat \<Rightarrow> string \<Rightarrow> 'w install_call list \<Rightarrow> 'w slot \<Rightarrow> 'w
     \<Rightarrow> (exn + jsval) list \<times> 'w slot \<times> 'w"
where
  "install_all object property [] slot w = ([], slot, w)"
| "install_all object property (c # cs) slot w =
     (case install object property c slot w of
        (r, slot1, w1) \<Rightarrow>
          (case install_all object property cs slot1 w1 of
             (rs, slot', w') \<Rightarrow> (r # rs, slot', w')))"

text \<open>
  The callbacks that a sequence of calls has registered in each chain, oldest first: those
  of the calls of that kind that returned the object.
\<close>

fun afterGet_callbacks ::
  "nat \<Rightarrow> 'w install_call list \<Rightarrow> (exn + jsval) list \<Rightarrow> 'w callback list"
where
  "afterGet_callbacks object (AfterGetCall cb # cs) (r # rs) =
     (if r = Inr (JObject object) then [cb] else []) @ afterGet_callbacks object cs rs"
| "afterGet_callbacks object (c # cs) (r # rs) = afterGet_callbacks object cs rs"
| "afterGet_callbacks object cs rs = []"

fun beforeSet_callbacks ::
  "nat \<Rightarrow> 'w install_call list \<Rightarrow> (exn + jsval) list \<Rightarrow> 'w callback list"
where
  "beforeSet_callbacks object (BeforeSetCall cb # cs) (r # rs) =
     (if r = Inr (JObject object) then [cb] else []) @ beforeSet_callbacks object cs rs"
| "beforeSet_callbacks object (c # cs) (r # rs) = beforeSet_callbacks object cs rs"
| "beforeSet_callbacks object cs rs = []"

fun afterSet_callbacks ::
  "nat \<Rightarrow> 'w install_call list \<Rightarrow> (exn + jsval) list \<Rightarrow> 'w callback list"
where
  "afterSet_callbacks object (AfterSetCall cb # cs) (r # rs) =
     (if r = Inr (JObject object) then [cb] else []) @ afterSet_callbacks object cs rs"
| "afterSet_callbacks object (c # cs) (r # rs) = afterSet_callbacks object cs rs"
| "afterSet_callbacks object cs rs = []"

text \<open>
  What the spec (section 4.1, the read and the write algorithm) says is done with the
  callbacks of a chain, written on the callbacks themselves and not on the handler
  functions of the source, to be compared with the loops of \<open>get\<close> and \<open>set_js\<close>:
  \<open>call_in_turn\<close> gives each callback the object, the field and the value and hands what
  it returns to the next one; \<open>tell_in_turn\<close> gives every callback the same value and
  drops what it returns; a callback that throws ends either. \<open>and_then\<close> goes on with the
  next step when a step has returned.
\<close>

fun call_in_turn ::
  "nat \<Rightarrow> string \<Rightarrow> 'w callback list \<Rightarrow> jsval \<Rightarrow> 'w \<Rightarrow> (exn + jsval) \<times> 'w"
where
  "call_in_turn object property [] v w = (Inr v, w)"
| "call_in_turn object property (cb # cbs) v w =
     (case cb object property v w of
        (Inl e, w') \<Rightarrow> (Inl e, w')
      | (Inr v', w') \<Rightarrow> call_in_turn object property cbs v' w')"

fun tell_in_turn ::
  "nat \<Rightarrow> string \<Rightarrow> 'w callback list \<Rightarrow> jsval \<Rightarrow> 'w \<Rightarrow> (exn + unit) \<times> 'w"
where
  "tell_in_turn object property [] v w = (Inr (), w)"
| "tell_in_turn object property (cb # cbs) v w =
     (case cb object property v w of
        (Inl e, w') \<Rightarrow> (Inl e, w')
      | (Inr r, w') \<Rightarrow> tell_in_turn object property cbs v w')"

definition and_then ::
  "(exn + 'a) \<times> 'w \<Rightarrow> ('a \<Rightarrow> 'w \<Rightarrow> (exn + 'b) \<times> 'w) \<Rightarrow> (exn + 'b) \<times> 'w"
where
  "and_then step next =
     (case step of
        (Inl e, w) \<Rightarrow> (Inl e, w)
      | (Inr a, w) \<Rightarrow> next a w)"

section \<open>Fields that are not configurable\<close>

text \<open>
  Lines 96, 137 and 172: \<^verbatim>\<open>Object.defineProperty(object,property,descriptor)\<close>. The
  routines above are the code on a configurable field, where this call succeeds. On a
  field whose \<^verbatim>\<open>configurable\<close> attribute is \<^verbatim>\<open>false\<close> the call throws a \<^verbatim>\<open>TypeError\<close>, unless
  the descriptor holds the very accessor functions that the field has (the engine getter
  with the setter that is installed): then nothing is redefined and the call returns. A
  field that is absent is created (the object is extensible, which the spec asks of
  it). The \<^verbatim>\<open>TypeError\<close> is kept as a value that stands for it.
\<close>

definition type_error :: jsval where
  "type_error = JString ''TypeError''"

fun same_accessors :: "'w slot \<Rightarrow> 'w slot \<Rightarrow> bool" where
  "same_accessors (Hooked g (EngineSet s)) (Hooked g' (EngineSet s')) = True"
| "same_accessors (Hooked g (ForeignSet f)) (Hooked g' (ForeignSet f')) = True"
| "same_accessors current descriptor = False"

fun defineProperty :: "bool \<Rightarrow> 'w slot \<Rightarrow> 'w slot \<Rightarrow> exn + 'w slot" where
  "defineProperty configurable Absent descriptor = Inr descriptor"
| "defineProperty configurable current descriptor =
     (if configurable \<or> same_accessors current descriptor then Inr descriptor
      else Inl (Thrown type_error))"

text \<open>
  An install routine on a field whose \<^verbatim>\<open>configurable\<close> attribute is given. A call that
  returns \<^verbatim>\<open>false\<close> or ends with a failure of the read has not come to
  \<^verbatim>\<open>Object.defineProperty\<close>. When \<^verbatim>\<open>Object.defineProperty\<close> throws, the field is as the read
  of lines 75, 107, 143 left it: the accessor functions that the call made are dropped.
\<close>

definition with_defineProperty ::
  "bool \<Rightarrow> ('w slot \<Rightarrow> 'w \<Rightarrow> (exn + jsval) \<times> 'w slot \<times> 'w)
     \<Rightarrow> 'w slot \<Rightarrow> 'w \<Rightarrow> (exn + jsval) \<times> 'w slot \<times> 'w"
where
  "with_defineProperty configurable routine slot w =
     (case read_field slot w of
        (r1, slot1, w1) \<Rightarrow>
          (case routine slot w of
             (Inr (JObject object), slot', w') \<Rightarrow>
               (case defineProperty configurable slot1 slot' of
                  Inr defined \<Rightarrow> (Inr (JObject object), defined, w')
                | Inl e \<Rightarrow> (Inl e, slot1, w'))
           | (r, slot', w') \<Rightarrow> (r, slot', w')))"

definition afterGet_on ::
  "bool \<Rightarrow> nat \<Rightarrow> string \<Rightarrow> 'w callback \<Rightarrow> 'w slot \<Rightarrow> 'w \<Rightarrow> (exn + jsval) \<times> 'w slot \<times> 'w"
where
  "afterGet_on configurable object property callback =
     with_defineProperty configurable (afterGet object property callback)"

definition beforeSet_on ::
  "bool \<Rightarrow> nat \<Rightarrow> string \<Rightarrow> 'w callback \<Rightarrow> 'w slot \<Rightarrow> 'w \<Rightarrow> (exn + jsval) \<times> 'w slot \<times> 'w"
where
  "beforeSet_on configurable object property callback =
     with_defineProperty configurable (beforeSet object property callback)"

definition afterSet_on ::
  "bool \<Rightarrow> nat \<Rightarrow> string \<Rightarrow> 'w callback \<Rightarrow> 'w slot \<Rightarrow> 'w \<Rightarrow> (exn + jsval) \<times> 'w slot \<times> 'w"
where
  "afterSet_on configurable object property callback =
     with_defineProperty configurable (afterSet object property callback)"

section \<open>Callbacks and fields of the scenarios\<close>

text \<open>
  \<^verbatim>\<open>v => v+1\<close> and \<^verbatim>\<open>v => v*2\<close>, as they act on numbers (on anything else the result is
  given as \<^verbatim>\<open>NaN\<close>; the scenarios apply them to numbers only), a callback that returns
  its value unchanged, one that throws, \<^verbatim>\<open>(o,p,v) => log.push(v)\<close> on a world that is the
  log, and a getter that was on the field before the engine: it returns 7 and counts its
  invocations in the world.
\<close>

definition inc_cb :: "'w callback" where
  "inc_cb object property v w =
     (case v of JNumber n \<Rightarrow> (Inr (JNumber (n + 1)), w) | _ \<Rightarrow> (Inr JNaN, w))"

definition double_cb :: "'w callback" where
  "double_cb object property v w =
     (case v of JNumber n \<Rightarrow> (Inr (JNumber (n * 2)), w) | _ \<Rightarrow> (Inr JNaN, w))"

definition keep_cb :: "'w callback" where
  "keep_cb object property v w = (Inr v, w)"

definition veto_cb :: "'w callback" where
  "veto_cb object property v w = (Inl (Thrown (JString ''veto'')), w)"

definition log_cb :: "(jsval list) callback" where
  "log_cb object property v w = (Inr (JNumber (int (length w) + 1)), w @ [v])"

definition mark_cb :: "(jsval list) callback" where
  "mark_cb object property v w = (Inr JUndefined, w @ [JString property])"

definition counting_getter :: "nat getter" where
  "counting_getter w = (Inr (JNumber 7), Suc w)"

text \<open>
  An intercepted field that had no accessor before: its cached value, its afterGet,
  beforeSet and afterSet chains.
\<close>

definition intercepted ::
  "jsval \<Rightarrow> 'w handler list \<Rightarrow> 'w handler list \<Rightarrow> 'w handler list \<Rightarrow> 'w slot"
where
  "intercepted v gets befores afters =
     Hooked \<lparr>get_value = v, get_after = gets, get_oldGet = None\<rparr>
       (EngineSet \<lparr>set_before = befores, set_after = afters, set_oldset = None\<rparr>)"

text \<open>
  An intercepted field that had the getter \<open>oldget\<close> and no setter before.
\<close>

definition over_getter :: "'w getter \<Rightarrow> jsval \<Rightarrow> 'w handler list \<Rightarrow> 'w slot" where
  "over_getter oldget v gets =
     Hooked \<lparr>get_value = v, get_after = gets, get_oldGet = Some oldget\<rparr>
       (EngineSet \<lparr>set_before = [], set_after = [], set_oldset = None\<rparr>)"

section \<open>Properties of the loops and of the install routines\<close>

lemma forEach_thread_append:
  "forEach_thread (xs @ ys) v w =
     (case forEach_thread xs v w of
        (Inl e, w') \<Rightarrow> (Inl e, w')
      | (Inr v', w') \<Rightarrow> forEach_thread ys v' w')"
  by (induction xs arbitrary: v w) (auto split: prod.splits sum.splits)

lemma forEach_notify_append:
  "forEach_notify (xs @ ys) v w =
     (case forEach_notify xs v w of
        (Inl e, w') \<Rightarrow> (Inl e, w')
      | (Inr u, w') \<Rightarrow> forEach_notify ys v w')"
  by (induction xs arbitrary: w) (auto split: prod.splits sum.splits)

lemma slot_kinds [case_names Absent DataProp NoGetter Getter Hooked]:
  obtains "slot = Absent" | v where "slot = DataProp v"
  | s where "slot = PlainAccessor None s"
  | f s where "slot = PlainAccessor (Some f) s"
  | g s where "slot = Hooked g s"
proof (cases slot)
  case (PlainAccessor go so)
  then show ?thesis using that by (cases go) auto
qed (use that in auto)

lemma get_chain: "get g w = (r, g', w') \<Longrightarrow> get_after g' = get_after g \<and> get_oldGet g' = get_oldGet g"
  by (auto simp: get_def split: prod.splits sum.splits)

lemma read_field_chains:
  assumes "read_field slot w = (r, slot', w')"
  shows "afterGetChain slot' = afterGetChain slot \<and> beforeSetChain slot' = beforeSetChain slot
    \<and> afterSetChain slot' = afterSetChain slot \<and> descriptor_set slot' = descriptor_set slot"
proof (cases slot rule: slot_kinds)
  case (Hooked g s)
  obtain g' where g': "get g w = (r, g', w')" and s': "slot' = Hooked g' s"
    using assms Hooked by (auto split: prod.splits)
  from get_chain [OF g'] show ?thesis using Hooked s' by (cases s) simp_all
qed (use assms in \<open>auto split: prod.splits\<close>)


lemma afterGetChain_descriptor:
  "afterGetChain slot = (case descriptor_get slot of Some (EngineGet g) \<Rightarrow> get_after g | _ \<Rightarrow> [])"
  by (cases slot rule: slot_kinds) simp_all

lemma beforeSetChain_descriptor:
  "beforeSetChain slot = (case descriptor_set slot of Some (EngineSet s) \<Rightarrow> set_before s | _ \<Rightarrow> [])"
proof (cases slot)
  case (PlainAccessor go so)
  then show ?thesis by (cases so) simp_all
next
  case (Hooked g s)
  then show ?thesis by (cases s) simp_all
qed simp_all

lemma afterSetChain_descriptor:
  "afterSetChain slot = (case descriptor_set slot of Some (EngineSet s) \<Rightarrow> set_after s | _ \<Rightarrow> [])"
proof (cases slot)
  case (PlainAccessor go so)
  then show ?thesis by (cases so) simp_all
next
  case (Hooked g s)
  then show ?thesis by (cases s) simp_all
qed simp_all

lemma afterGet_throws:
  "read_field slot w = (Inl e, slot1, w1) \<Longrightarrow>
   afterGet object property cb slot w = (Inl e, slot1, w1)"
  by (simp add: afterGet_def)

lemma afterGet_returns:
  "read_field slot w = (Inr value, slot1, w1) \<Longrightarrow>
   afterGet object property cb slot w =
     (Inr (JObject object),
      Hooked (case descriptor_get slot1 of
                Some (EngineGet g0) \<Rightarrow> g0\<lparr>get_after := get_after g0 @ [handler cb object property]\<rparr>
              | Some (ForeignGet oldget) \<Rightarrow>
                  \<lparr>get_value = value, get_after = [handler cb object property], get_oldGet = Some oldget\<rparr>
              | None \<Rightarrow> \<lparr>get_value = value, get_after = [handler cb object property], get_oldGet = None\<rparr>)
             (ensure_set slot1), w1)"
  by (simp add: afterGet_def Let_def)

lemma afterGet_returns_object:
  assumes "afterGet object property cb slot w = (Inr r, slot', w')"
  shows "r = JObject object"
proof -
  obtain r1 slot1 w1 where rd: "read_field slot w = (r1, slot1, w1)"
    by (cases "read_field slot w") auto
  show ?thesis
  proof (cases r1)
    case (Inl e)
    with rd assms afterGet_throws [of slot w e slot1 w1 object "property" cb]
    show ?thesis by simp
  next
    case (Inr v)
    with rd assms afterGet_returns [of slot w v slot1 w1 object "property" cb]
    show ?thesis by simp
  qed
qed

lemma ensure_set_chains:
  "beforeSetChain (Hooked g (ensure_set slot)) = beforeSetChain slot"
  "afterSetChain (Hooked g (ensure_set slot)) = afterSetChain slot"
  by (simp_all add: beforeSetChain_descriptor afterSetChain_descriptor ensure_set_def
      split: option.splits setfn.splits)

lemma afterGet_chains:
  assumes "afterGet object property cb slot w = (r, slot', w')"
  shows "afterGetChain slot' =
           afterGetChain slot @ (if r = Inr (JObject object) then [handler cb object property] else [])
    \<and> beforeSetChain slot' = beforeSetChain slot \<and> afterSetChain slot' = afterSetChain slot"
proof -
  obtain r1 slot1 w1 where rd: "read_field slot w = (r1, slot1, w1)"
    by (cases "read_field slot w") auto
  note ch = read_field_chains [OF rd]
  show ?thesis
  proof (cases r1)
    case (Inl e)
    with rd assms afterGet_throws [of slot w e slot1 w1 object "property" cb]
    have "r = Inl e" and "slot' = slot1" by simp_all
    with ch show ?thesis by simp
  next
    case (Inr v)
    with rd assms afterGet_returns [of slot w v slot1 w1 object "property" cb]
    have r: "r = Inr (JObject object)" and s: "slot' = Hooked (case descriptor_get slot1 of
                Some (EngineGet g0) \<Rightarrow> g0\<lparr>get_after := get_after g0 @ [handler cb object property]\<rparr>
              | Some (ForeignGet oldget) \<Rightarrow>
                  \<lparr>get_value = v, get_after = [handler cb object property], get_oldGet = Some oldget\<rparr>
              | None \<Rightarrow> \<lparr>get_value = v, get_after = [handler cb object property], get_oldGet = None\<rparr>)
             (ensure_set slot1)" by simp_all
    have "afterGetChain slot' = afterGetChain slot1 @ [handler cb object property]"
      unfolding s by (simp add: afterGetChain_descriptor [of slot1] split: option.splits getfn.splits)
    then show ?thesis using ch r by (simp add: s ensure_set_chains)
  qed
qed


lemma ensure_get_chain:
  "get_after (ensure_get slot v) = afterGetChain slot"
  by (simp add: afterGetChain_descriptor ensure_get_def split: option.splits getfn.splits)

lemma beforeSet_throws:
  "read_field slot w = (Inl e, slot1, w1) \<Longrightarrow>
   beforeSet object property cb slot w = (Inl e, slot1, w1)"
  by (simp add: beforeSet_def)

lemma beforeSet_refuses:
  "read_field slot w = (Inr v, slot1, w1) \<Longrightarrow> is_function v \<Longrightarrow>
   beforeSet object property cb slot w = (Inr (JBool False), slot1, w1)"
  by (simp add: beforeSet_def)

lemma beforeSet_returns:
  "read_field slot w = (Inr v, slot1, w1) \<Longrightarrow> \<not> is_function v \<Longrightarrow>
   beforeSet object property cb slot w =
     (Inr (JObject object),
      Hooked (ensure_get slot1 v)
        (EngineSet (case ensure_set slot1 of
           EngineSet s0 \<Rightarrow> s0\<lparr>set_before := handler cb object property # set_before s0\<rparr>
         | ForeignSet oldset \<Rightarrow>
             \<lparr>set_before = [handler cb object property], set_after = [], set_oldset = Some oldset\<rparr>)),
      w1)"
  by (simp add: beforeSet_def Let_def split: setfn.splits)

lemma afterSet_throws:
  "read_field slot w = (Inl e, slot1, w1) \<Longrightarrow>
   afterSet object property cb slot w = (Inl e, slot1, w1)"
  by (simp add: afterSet_def)

lemma afterSet_refuses:
  "read_field slot w = (Inr v, slot1, w1) \<Longrightarrow> is_function v \<Longrightarrow>
   afterSet object property cb slot w = (Inr (JBool False), slot1, w1)"
  by (simp add: afterSet_def)

lemma afterSet_returns:
  "read_field slot w = (Inr v, slot1, w1) \<Longrightarrow> \<not> is_function v \<Longrightarrow>
   afterSet object property cb slot w =
     (Inr (JObject object),
      Hooked (ensure_get slot1 v)
        (EngineSet (case ensure_set slot1 of
           EngineSet s0 \<Rightarrow> s0\<lparr>set_after := set_after s0 @ [observer cb object property]\<rparr>
         | ForeignSet oldset \<Rightarrow>
             \<lparr>set_before = [], set_after = [observer cb object property], set_oldset = Some oldset\<rparr>)),
      w1)"
  by (simp add: afterSet_def Let_def split: setfn.splits)

lemma ensure_set_before:
  "(case ensure_set slot of EngineSet s0 \<Rightarrow> set_before s0 | ForeignSet f \<Rightarrow> []) = beforeSetChain slot"
  by (simp add: beforeSetChain_descriptor ensure_set_def split: option.splits setfn.splits)

lemma ensure_set_after:
  "(case ensure_set slot of EngineSet s0 \<Rightarrow> set_after s0 | ForeignSet f \<Rightarrow> []) = afterSetChain slot"
  by (simp add: afterSetChain_descriptor ensure_set_def split: option.splits setfn.splits)

lemma beforeSet_chains:
  assumes "beforeSet object property cb slot w = (r, slot', w')"
  shows "beforeSetChain slot' =
           (if r = Inr (JObject object) then [handler cb object property] else []) @ beforeSetChain slot
    \<and> afterGetChain slot' = afterGetChain slot \<and> afterSetChain slot' = afterSetChain slot"
proof -
  obtain r1 slot1 w1 where rd: "read_field slot w = (r1, slot1, w1)"
    by (cases "read_field slot w") auto
  note ch = read_field_chains [OF rd]
  show ?thesis
  proof (cases r1)
    case (Inl e)
    with rd assms beforeSet_throws [of slot w e slot1 w1 object "property" cb]
    have "r = Inl e" and "slot' = slot1" by simp_all
    with ch show ?thesis by simp
  next
    case (Inr v)
    show ?thesis
    proof (cases "is_function v")
      case True
      with Inr rd assms beforeSet_refuses [of slot w v slot1 w1 object "property" cb]
      have "r = Inr (JBool False)" and "slot' = slot1" by simp_all
      with ch show ?thesis by simp
    next
      case False
      with Inr rd assms beforeSet_returns [of slot w v slot1 w1 object "property" cb]
      have r: "r = Inr (JObject object)"
        and s: "slot' = Hooked (ensure_get slot1 v)
          (EngineSet (case ensure_set slot1 of
             EngineSet s0 \<Rightarrow> s0\<lparr>set_before := handler cb object property # set_before s0\<rparr>
           | ForeignSet oldset \<Rightarrow>
               \<lparr>set_before = [handler cb object property], set_after = [], set_oldset = Some oldset\<rparr>))"
        by simp_all
      have "beforeSetChain slot' = handler cb object property # beforeSetChain slot1"
        unfolding s ensure_set_before [of slot1, symmetric] by (simp split: setfn.splits)
      moreover have "afterSetChain slot' = afterSetChain slot1"
        unfolding s ensure_set_after [of slot1, symmetric] by (simp split: setfn.splits)
      moreover have "afterGetChain slot' = afterGetChain slot1"
        unfolding s by (simp add: ensure_get_chain)
      ultimately show ?thesis using ch r by simp
    qed
  qed
qed

lemma afterSet_chains:
  assumes "afterSet object property cb slot w = (r, slot', w')"
  shows "afterSetChain slot' =
           afterSetChain slot @ (if r = Inr (JObject object) then [observer cb object property] else [])
    \<and> afterGetChain slot' = afterGetChain slot \<and> beforeSetChain slot' = beforeSetChain slot"
proof -
  obtain r1 slot1 w1 where rd: "read_field slot w = (r1, slot1, w1)"
    by (cases "read_field slot w") auto
  note ch = read_field_chains [OF rd]
  show ?thesis
  proof (cases r1)
    case (Inl e)
    with rd assms afterSet_throws [of slot w e slot1 w1 object "property" cb]
    have "r = Inl e" and "slot' = slot1" by simp_all
    with ch show ?thesis by simp
  next
    case (Inr v)
    show ?thesis
    proof (cases "is_function v")
      case True
      with Inr rd assms afterSet_refuses [of slot w v slot1 w1 object "property" cb]
      have "r = Inr (JBool False)" and "slot' = slot1" by simp_all
      with ch show ?thesis by simp
    next
      case False
      with Inr rd assms afterSet_returns [of slot w v slot1 w1 object "property" cb]
      have r: "r = Inr (JObject object)"
        and s: "slot' = Hooked (ensure_get slot1 v)
          (EngineSet (case ensure_set slot1 of
             EngineSet s0 \<Rightarrow> s0\<lparr>set_after := set_after s0 @ [observer cb object property]\<rparr>
           | ForeignSet oldset \<Rightarrow>
               \<lparr>set_before = [], set_after = [observer cb object property], set_oldset = Some oldset\<rparr>))"
        by simp_all
      have "afterSetChain slot' = afterSetChain slot1 @ [observer cb object property]"
        unfolding s ensure_set_after [of slot1, symmetric] by (simp split: setfn.splits)
      moreover have "beforeSetChain slot' = beforeSetChain slot1"
        unfolding s ensure_set_before [of slot1, symmetric] by (simp split: setfn.splits)
      moreover have "afterGetChain slot' = afterGetChain slot1"
        unfolding s by (simp add: ensure_get_chain)
      ultimately show ?thesis using ch r by simp
    qed
  qed
qed

section \<open>The write algorithm\<close>

lemma set_js_vetoed:
  "forEach_thread (set_before s) v w = (Inl e, w1) \<Longrightarrow> set_js (g, s) v w = (Inl e, (g, s), w1)"
  by (simp add: set_js_def)

lemma set_js_commits:
  "forEach_thread (set_before s) v w = (Inr vc, w1) \<Longrightarrow>
   set_js (g, s) v w =
     (if strict_eq vc (get_value g) then (Inr vc, (g\<lparr>get_value := vc\<rparr>, s), w1)
      else (case forEach_notify (set_after s) vc w1 of
              (Inl e, w2) \<Rightarrow> (Inl e, (g\<lparr>get_value := vc\<rparr>, s), w2)
            | (Inr u, w2) \<Rightarrow> (Inr vc, (g\<lparr>get_value := vc\<rparr>, s), w2)))"
  by (simp add: set_js_def Let_def)

lemma forEach_thread_stops:
  "forEach_thread hs1 v w = (Inr v1, w1) \<Longrightarrow> h v1 w1 = (Inl e, w2) \<Longrightarrow>
   forEach_thread (hs1 @ h # hs2) v w = (Inl e, w2)"
  by (simp add: forEach_thread_append)

text \<open>
  C4. A write during which a beforeSet handler throws: the handlers \<open>hs1\<close> in front of it
  have run, the handler \<open>h\<close> throws \<open>e\<close> and leaves the world \<open>w2\<close>. The write ends with
  that failure, the field is as it was before the write (the cached value and the three
  chains), and the world is \<open>w2\<close>, whatever the remaining beforeSet handlers \<open>hs2\<close> and
  the afterSet chain are: none of them has run.
\<close>

theorem vetoed_write_leaves_field_unchanged:
  assumes "set_before s = hs1 @ h # hs2"
    and "forEach_thread hs1 v w = (Inr v1, w1)"
    and "h v1 w1 = (Inl e, w2)"
  shows "write_field (Hooked g (EngineSet s)) v w = (Inl e, Hooked g (EngineSet s), w2)"
proof -
  have "forEach_thread (set_before s) v w = (Inl e, w2)"
    using assms by (simp add: forEach_thread_stops)
  then show ?thesis by (simp add: set_js_vetoed)
qed

text \<open>
  A field with cached value 1 whose beforeSet chain is a logging handler, a vetoing one
  and a second logging one, and whose afterSet chain logs as well: the write of 5 throws,
  the cached value is still 1 and the log holds the one entry of the first handler.
\<close>

theorem vetoed_write_leaves_field_unchanged_witness:
  "forEach_thread [handler log_cb 0 ''y''] (JNumber 5) [] = (Inr (JNumber 1), [JNumber 5])
   \<and> handler veto_cb 0 ''y'' (JNumber 1) [JNumber 5] = (Inl (Thrown (JString ''veto'')), [JNumber 5])
   \<and> write_field
     (Hooked \<lparr>get_value = JNumber 1, get_after = [], get_oldGet = None\<rparr>
        (EngineSet \<lparr>set_before = [handler log_cb 0 ''y'', handler veto_cb 0 ''y'', handler log_cb 0 ''y''],
                    set_after = [observer log_cb 0 ''y''], set_oldset = None\<rparr>))
     (JNumber 5) []
   = (Inl (Thrown (JString ''veto'')),
      Hooked \<lparr>get_value = JNumber 1, get_after = [], get_oldGet = None\<rparr>
        (EngineSet \<lparr>set_before = [handler log_cb 0 ''y'', handler veto_cb 0 ''y'', handler log_cb 0 ''y''],
                    set_after = [observer log_cb 0 ''y''], set_oldset = None\<rparr>),
      [JNumber 5])"
proof -
  have a: "set_before \<lparr>set_before = [handler log_cb 0 ''y'', handler veto_cb 0 ''y'', handler log_cb 0 ''y''],
                    set_after = [observer log_cb 0 ''y''], set_oldset = None\<rparr>
           = [handler log_cb 0 ''y''] @ handler veto_cb 0 ''y'' # [handler log_cb 0 ''y'']"
    by simp
  have b: "forEach_thread [handler log_cb 0 ''y''] (JNumber 5) [] = (Inr (JNumber 1), [JNumber 5])"
    by (simp add: handler_def log_cb_def)
  have c: "handler veto_cb 0 ''y'' (JNumber 1) [JNumber 5] = (Inl (Thrown (JString ''veto'')), [JNumber 5])"
    by (simp add: handler_def veto_cb_def)
  from vetoed_write_leaves_field_unchanged [OF a b c] b c show ?thesis
    by blast
qed

section \<open>The read algorithm\<close>

lemma get_runs_chain:
  "start_value g w = (Inr v, wa) \<Longrightarrow> forEach_thread (get_after g) v wa = (Inr vc, wd) \<Longrightarrow>
   get g w = (Inr vc, g\<lparr>get_value := vc\<rparr>, wd)"
  by (simp add: get_def)

text \<open>
  C1. Two afterGet hooks \<open>H1\<close> then \<open>H2\<close> are installed on a field, both calls returning.
  The afterGet chain is then the chain that was there followed by \<open>H1\<close> and \<open>H2\<close>. Every
  later read of the field (any state \<open>g\<close> of the getter with that chain) starts from the
  starting value, runs the older handlers, gives their result to \<open>H1\<close>, gives what \<open>H1\<close>
  returns to \<open>H2\<close>, stores what \<open>H2\<close> returns as the cached value and returns it. For the
  object \<^verbatim>\<open>{x: 1}\<close> with the one hook \<^verbatim>\<open>v => v+1\<close> the first read gives 2 and the second 3.
\<close>

theorem afterGet_hooks_run_in_registration_order:
  assumes i1: "afterGet object property H1 slot0 w0 = (Inr r1, slot1, w1)"
    and i2: "afterGet object property H2 slot1 w1 = (Inr r2, slot2, w2)"
    and ch: "get_after g = afterGetChain slot2"
    and st: "start_value g w = (Inr v, wa)"
    and pre: "forEach_thread (afterGetChain slot0) v wa = (Inr va, wb)"
    and h1: "H1 object property va wb = (Inr vb, wc)"
    and h2: "H2 object property vb wc = (Inr vc, wd)"
  shows "afterGetChain slot2
           = afterGetChain slot0 @ [handler H1 object property, handler H2 object property]
    \<and> read_field (Hooked g s) w = (Inr vc, Hooked (g\<lparr>get_value := vc\<rparr>) s, wd)
    \<and> (case afterGet object property inc_cb (DataProp (JNumber 1)) w0 of
          (r, f1, u1) \<Rightarrow>
            (case read_field f1 u1 of
               (first, f2, u2) \<Rightarrow>
                 (case read_field f2 u2 of
                    (second, f3, u3) \<Rightarrow>
                      first = Inr (JNumber 2) \<and> second = Inr (JNumber 3))))"
proof -
  have r1: "r1 = JObject object" by (rule afterGet_returns_object [OF i1])
  have r2: "r2 = JObject object" by (rule afterGet_returns_object [OF i2])
  have c1: "afterGetChain slot1 = afterGetChain slot0 @ [handler H1 object property]"
    using afterGet_chains [OF i1] r1 by simp
  have c2: "afterGetChain slot2 = afterGetChain slot1 @ [handler H2 object property]"
    using afterGet_chains [OF i2] r2 by simp
  have chain: "afterGetChain slot2
           = afterGetChain slot0 @ [handler H1 object property, handler H2 object property]"
    using c1 c2 by simp
  have "forEach_thread (get_after g) v wa = (Inr vc, wd)"
    using pre h1 h2 by (simp add: ch chain forEach_thread_append handler_def)
  from get_runs_chain [OF st this]
  have rd: "read_field (Hooked g s) w = (Inr vc, Hooked (g\<lparr>get_value := vc\<rparr>) s, wd)"
    by simp
  have sc: "(case afterGet object property inc_cb (DataProp (JNumber 1)) w0 of
          (r, f1, u1) \<Rightarrow>
            (case read_field f1 u1 of
               (first, f2, u2) \<Rightarrow>
                 (case read_field f2 u2 of
                    (second, f3, u3) \<Rightarrow>
                      first = Inr (JNumber 2) \<and> second = Inr (JNumber 3))))"
    by (simp add: afterGet_def ensure_set_def get_def start_value_def handler_def inc_cb_def)
  from chain rd sc show ?thesis by blast
qed


text \<open>
  On \<^verbatim>\<open>{x: 1}\<close> with \<^verbatim>\<open>v => v+1\<close> then \<^verbatim>\<open>v => v*2\<close>: the second install reads the field
  (cached value 2), and the next read gives (2 + 1) * 2 = 6.
\<close>

theorem afterGet_hooks_run_in_registration_order_witness:
  "afterGet 0 ''x'' inc_cb (DataProp (JNumber 1)) ()
     = (Inr (JObject 0), intercepted (JNumber 1) [handler inc_cb 0 ''x''] [] [], ())
   \<and> afterGet 0 ''x'' double_cb (intercepted (JNumber 1) [handler inc_cb 0 ''x''] [] []) ()
     = (Inr (JObject 0),
        intercepted (JNumber 2) [handler inc_cb 0 ''x'', handler double_cb 0 ''x''] [] [], ())
   \<and> read_field (intercepted (JNumber 2) [handler inc_cb 0 ''x'', handler double_cb 0 ''x''] [] []) ()
     = (Inr (JNumber 6),
        intercepted (JNumber 6) [handler inc_cb 0 ''x'', handler double_cb 0 ''x''] [] [], ())"
proof -
  let ?g = "\<lparr>get_value = JNumber 2,
             get_after = [handler inc_cb 0 ''x'', handler double_cb 0 ''x''],
             get_oldGet = (None :: unit getter option)\<rparr>"
  have i1: "afterGet 0 ''x'' inc_cb (DataProp (JNumber 1)) ()
     = (Inr (JObject 0), intercepted (JNumber 1) [handler inc_cb 0 ''x''] [] [], ())"
    by (simp add: afterGet_def ensure_set_def intercepted_def)
  have i2: "afterGet 0 ''x'' double_cb (intercepted (JNumber 1) [handler inc_cb 0 ''x''] [] []) ()
     = (Inr (JObject 0),
        intercepted (JNumber 2) [handler inc_cb 0 ''x'', handler double_cb 0 ''x''] [] [], ())"
    by (simp add: afterGet_def ensure_set_def intercepted_def get_def start_value_def
        handler_def inc_cb_def)
  have ch: "get_after ?g
     = afterGetChain (intercepted (JNumber 2) [handler inc_cb 0 ''x'', handler double_cb 0 ''x''] [] [])"
    by (simp add: intercepted_def)
  have st: "start_value ?g () = (Inr (JNumber 2), ())"
    by (simp add: start_value_def)
  have pre: "forEach_thread (afterGetChain (DataProp (JNumber 1))) (JNumber 2) ()
     = (Inr (JNumber 2), ())"
    by simp
  have h1: "inc_cb 0 ''x'' (JNumber 2) () = (Inr (JNumber 3), ())"
    by (simp add: inc_cb_def)
  have h2: "double_cb 0 ''x'' (JNumber 3) () = (Inr (JNumber 6), ())"
    by (simp add: double_cb_def)
  let ?s = "EngineSet \<lparr>set_before = [], set_after = [], set_oldset = (None :: unit setter option)\<rparr>"
  have e2: "intercepted (JNumber 2) [handler inc_cb 0 ''x'', handler double_cb 0 ''x''] [] []
     = Hooked ?g ?s"
    by (simp add: intercepted_def)
  have e6: "intercepted (JNumber 6) [handler inc_cb 0 ''x'', handler double_cb 0 ''x''] [] []
     = Hooked (?g\<lparr>get_value := JNumber 6\<rparr>) ?s"
    by (simp add: intercepted_def)
  from afterGet_hooks_run_in_registration_order [OF i1 i2 ch st pre h1 h2]
  have "read_field (Hooked ?g ?s) () = (Inr (JNumber 6), Hooked (?g\<lparr>get_value := JNumber 6\<rparr>) ?s, ())"
    by blast
  then have "read_field (intercepted (JNumber 2) [handler inc_cb 0 ''x'', handler double_cb 0 ''x''] [] []) ()
     = (Inr (JNumber 6),
        intercepted (JNumber 6) [handler inc_cb 0 ''x'', handler double_cb 0 ''x''] [] [], ())"
    unfolding e2 e6 .
  with i1 i2 show ?thesis by blast
qed

lemma write_field_commits:
  assumes "forEach_thread (set_before s) v w = (Inr vc, w1)"
  shows "write_field (Hooked g (EngineSet s)) v w =
     (if strict_eq vc (get_value g) then (Inr vc, Hooked (g\<lparr>get_value := vc\<rparr>) (EngineSet s), w1)
      else (case forEach_notify (set_after s) vc w1 of
              (Inl e, w2) \<Rightarrow> (Inl e, Hooked (g\<lparr>get_value := vc\<rparr>) (EngineSet s), w2)
            | (Inr u, w2) \<Rightarrow> (Inr vc, Hooked (g\<lparr>get_value := vc\<rparr>) (EngineSet s), w2)))"
  by (simp add: set_js_commits [OF assms] split: prod.splits sum.splits)

text \<open>
  C2. Two beforeSet hooks \<open>B1\<close> then \<open>B2\<close> are installed on a field, both calls returning
  the object. The beforeSet chain is then \<open>B2\<close>, \<open>B1\<close>, and the chain that was there. A
  later write of \<open>v\<close> gives \<open>v\<close> to \<open>B2\<close> first, what \<open>B2\<close> returns to \<open>B1\<close>, what \<open>B1\<close>
  returns to the older handlers, stores their result \<open>vc\<close> as the cached value and (the
  afterSet handlers not throwing) returns \<open>vc\<close>. After \<^verbatim>\<open>installBeforeSet(obj,"y", v => v*2)\<close>
  on a field that is not there yet, the write of 5 commits and returns 10.
\<close>

theorem beforeSet_hooks_run_newest_first:
  assumes i1: "beforeSet object property B1 slot0 w0 = (Inr (JObject object), slot1, w1)"
    and i2: "beforeSet object property B2 slot1 w1 = (Inr (JObject object), slot2, w2)"
    and ch: "set_before s = beforeSetChain slot2"
    and b2: "B2 object property v w = (Inr va, wa)"
    and b1: "B1 object property va wa = (Inr vb, wb)"
    and old: "forEach_thread (beforeSetChain slot0) vb wb = (Inr vc, wc)"
    and obs: "forEach_notify (set_after s) vc wc = (Inr u, wd)"
  shows "beforeSetChain slot2
           = handler B2 object property # handler B1 object property # beforeSetChain slot0
    \<and> write_field (Hooked g (EngineSet s)) v w
        = (Inr vc, Hooked (g\<lparr>get_value := vc\<rparr>) (EngineSet s),
           if strict_eq vc (get_value g) then wc else wd)
    \<and> (case beforeSet object ''y'' double_cb Absent w0 of
          (r, f1, u1) \<Rightarrow>
            (case write_field f1 (JNumber 5) u1 of
               (res, f2, u2) \<Rightarrow> res = Inr (JNumber 10) \<and> cachedValue f2 = JNumber 10))"
proof -
  have c1: "beforeSetChain slot1 = handler B1 object property # beforeSetChain slot0"
    using beforeSet_chains [OF i1] by simp
  have c2: "beforeSetChain slot2 = handler B2 object property # beforeSetChain slot1"
    using beforeSet_chains [OF i2] by simp
  have chain: "beforeSetChain slot2
           = handler B2 object property # handler B1 object property # beforeSetChain slot0"
    using c1 c2 by simp
  have "forEach_thread (set_before s) v w = (Inr vc, wc)"
    using b2 b1 old by (simp add: ch chain handler_def)
  from write_field_commits [OF this, of g] obs
  have wr: "write_field (Hooked g (EngineSet s)) v w
        = (Inr vc, Hooked (g\<lparr>get_value := vc\<rparr>) (EngineSet s),
           if strict_eq vc (get_value g) then wc else wd)"
    by simp
  have sc: "(case beforeSet object ''y'' double_cb Absent w0 of
          (r, f1, u1) \<Rightarrow>
            (case write_field f1 (JNumber 5) u1 of
               (res, f2, u2) \<Rightarrow> res = Inr (JNumber 10) \<and> cachedValue f2 = JNumber 10))"
    by (simp add: beforeSet_def ensure_get_def ensure_set_def set_js_def handler_def double_cb_def)
  from chain wr sc show ?thesis by blast
qed

text \<open>
  On a new field with \<^verbatim>\<open>v => v*2\<close> registered first and \<^verbatim>\<open>v => v+1\<close> second, the write of
  5 commits (5 + 1) * 2 = 12: the hook registered last has run first.
\<close>

theorem beforeSet_hooks_run_newest_first_witness:
  "beforeSet 0 ''y'' double_cb Absent ()
     = (Inr (JObject 0), intercepted JUndefined [] [handler double_cb 0 ''y''] [], ())
   \<and> beforeSet 0 ''y'' inc_cb (intercepted JUndefined [] [handler double_cb 0 ''y''] []) ()
     = (Inr (JObject 0),
        intercepted JUndefined [] [handler inc_cb 0 ''y'', handler double_cb 0 ''y''] [], ())
   \<and> write_field (intercepted JUndefined [] [handler inc_cb 0 ''y'', handler double_cb 0 ''y''] [])
        (JNumber 5) ()
     = (Inr (JNumber 12),
        intercepted (JNumber 12) [] [handler inc_cb 0 ''y'', handler double_cb 0 ''y''] [], ())"
proof -
  let ?g = "\<lparr>get_value = JUndefined, get_after = [], get_oldGet = (None :: unit getter option)\<rparr>"
  let ?s = "\<lparr>set_before = [handler inc_cb 0 ''y'', handler double_cb 0 ''y''], set_after = [],
             set_oldset = (None :: unit setter option)\<rparr>"
  have i1: "beforeSet 0 ''y'' double_cb Absent ()
     = (Inr (JObject 0), intercepted JUndefined [] [handler double_cb 0 ''y''] [], ())"
    by (simp add: beforeSet_def ensure_get_def ensure_set_def intercepted_def)
  have i2: "beforeSet 0 ''y'' inc_cb (intercepted JUndefined [] [handler double_cb 0 ''y''] []) ()
     = (Inr (JObject 0),
        intercepted JUndefined [] [handler inc_cb 0 ''y'', handler double_cb 0 ''y''] [], ())"
    by (simp add: beforeSet_def ensure_get_def ensure_set_def intercepted_def get_def start_value_def)
  have ch: "set_before ?s
     = beforeSetChain (intercepted JUndefined [] [handler inc_cb 0 ''y'', handler double_cb 0 ''y''] [])"
    by (simp add: intercepted_def)
  have b2: "inc_cb 0 ''y'' (JNumber 5) () = (Inr (JNumber 6), ())"
    by (simp add: inc_cb_def)
  have b1: "double_cb 0 ''y'' (JNumber 6) () = (Inr (JNumber 12), ())"
    by (simp add: double_cb_def)
  have old: "forEach_thread (beforeSetChain Absent) (JNumber 12) () = (Inr (JNumber 12), ())"
    by simp
  have obs: "forEach_notify (set_after ?s) (JNumber 12) () = (Inr (), ())"
    by simp
  have e1: "intercepted JUndefined [] [handler inc_cb 0 ''y'', handler double_cb 0 ''y''] []
     = Hooked ?g (EngineSet ?s)"
    by (simp add: intercepted_def)
  have e2: "intercepted (JNumber 12) [] [handler inc_cb 0 ''y'', handler double_cb 0 ''y''] []
     = Hooked (?g\<lparr>get_value := JNumber 12\<rparr>) (EngineSet ?s)"
    by (simp add: intercepted_def)
  have e3: "(if strict_eq (JNumber 12) (get_value ?g) then () else ()) = ()"
    by simp
  from beforeSet_hooks_run_newest_first [OF i1 i2 ch b2 b1 old obs, of ?g]
  have "write_field (Hooked ?g (EngineSet ?s)) (JNumber 5) ()
     = (Inr (JNumber 12), Hooked (?g\<lparr>get_value := JNumber 12\<rparr>) (EngineSet ?s), ())"
    unfolding e3 by blast
  then have "write_field (intercepted JUndefined [] [handler inc_cb 0 ''y'', handler double_cb 0 ''y''] [])
        (JNumber 5) ()
     = (Inr (JNumber 12),
        intercepted (JNumber 12) [] [handler inc_cb 0 ''y'', handler double_cb 0 ''y''] [], ())"
    unfolding e1 e2 .
  with i1 i2 show ?thesis by blast
qed

text \<open>
  C3. Two afterSet hooks \<open>A1\<close> then \<open>A2\<close> are installed on a field, both calls returning
  the object. The afterSet chain is then the chain that was there followed by \<open>A1\<close> and
  \<open>A2\<close>. A later write whose beforeSet chain gives \<open>vc\<close> commits \<open>vc\<close> and returns it. When
  \<open>vc\<close> is strictly equal to the cached value of before the write, the world is the one
  the beforeSet chain left: no afterSet handler has run. Otherwise the older handlers,
  then \<open>A1\<close>, then \<open>A2\<close> have run, each on \<open>vc\<close>, and what they returned (\<open>x1\<close>, \<open>x2\<close>) is
  dropped. The handlers run after the commit: when one of them throws, the failure is
  what the write ends with and the cached value is \<open>vc\<close> already.
\<close>

theorem afterSet_hooks_run_after_a_change:
  assumes i1: "afterSet object property A1 slot0 w0 = (Inr (JObject object), slot1, w1)"
    and i2: "afterSet object property A2 slot1 w1 = (Inr (JObject object), slot2, w2)"
    and ch: "set_after s = afterSetChain slot2"
    and bf: "forEach_thread (set_before s) v w = (Inr vc, wa)"
    and old: "forEach_notify (afterSetChain slot0) vc wa = (Inr u, wb)"
    and a1: "A1 object property vc wb = (Inr x1, wc)"
    and a2: "A2 object property vc wc = (Inr x2, wd)"
  shows "afterSetChain slot2
           = afterSetChain slot0 @ [observer A1 object property, observer A2 object property]
    \<and> write_field (Hooked g (EngineSet s)) v w
        = (Inr vc, Hooked (g\<lparr>get_value := vc\<rparr>) (EngineSet s),
           if strict_eq vc (get_value g) then wa else wd)
    \<and> (\<forall>t e we. forEach_thread (set_before t) v w = (Inr vc, wa)
            \<and> \<not> strict_eq vc (get_value g)
            \<and> forEach_notify (set_after t) vc wa = (Inl e, we)
          \<longrightarrow> write_field (Hooked g (EngineSet t)) v w
                = (Inl e, Hooked (g\<lparr>get_value := vc\<rparr>) (EngineSet t), we))"
proof -
  have c1: "afterSetChain slot1 = afterSetChain slot0 @ [observer A1 object property]"
    using afterSet_chains [OF i1] by simp
  have c2: "afterSetChain slot2 = afterSetChain slot1 @ [observer A2 object property]"
    using afterSet_chains [OF i2] by simp
  have chain: "afterSetChain slot2
           = afterSetChain slot0 @ [observer A1 object property, observer A2 object property]"
    using c1 c2 by simp
  have "forEach_notify (set_after s) vc wa = (Inr (), wd)"
    using old a1 a2 by (simp add: ch chain forEach_notify_append observer_def)
  with write_field_commits [OF bf, of g]
  have wr: "write_field (Hooked g (EngineSet s)) v w
        = (Inr vc, Hooked (g\<lparr>get_value := vc\<rparr>) (EngineSet s),
           if strict_eq vc (get_value g) then wa else wd)"
    by simp
  have th: "\<forall>t e we. forEach_thread (set_before t) v w = (Inr vc, wa)
            \<and> \<not> strict_eq vc (get_value g)
            \<and> forEach_notify (set_after t) vc wa = (Inl e, we)
          \<longrightarrow> write_field (Hooked g (EngineSet t)) v w
                = (Inl e, Hooked (g\<lparr>get_value := vc\<rparr>) (EngineSet t), we)"
    by (simp add: set_js_def Let_def)
  from chain wr th show ?thesis by blast
qed

text \<open>
  A field with cached value 10, the beforeSet hook \<^verbatim>\<open>v => v*2\<close> and two logging afterSet
  hooks: the write of 5 commits 10 again and logs nothing; from the cached value 3 the
  same write logs 10 twice; with an afterSet hook that throws, the write throws and has
  committed 10.
\<close>

theorem afterSet_hooks_run_after_a_change_witness:
  "afterSet 0 ''y'' log_cb (intercepted (JNumber 10) [] [handler double_cb 0 ''y''] []) []
     = (Inr (JObject 0),
        intercepted (JNumber 10) [] [handler double_cb 0 ''y''] [observer log_cb 0 ''y''], [])
   \<and> afterSet 0 ''y'' log_cb
        (intercepted (JNumber 10) [] [handler double_cb 0 ''y''] [observer log_cb 0 ''y'']) []
     = (Inr (JObject 0),
        intercepted (JNumber 10) [] [handler double_cb 0 ''y'']
          [observer log_cb 0 ''y'', observer log_cb 0 ''y''], [])
   \<and> write_field
        (intercepted (JNumber 10) [] [handler double_cb 0 ''y'']
          [observer log_cb 0 ''y'', observer log_cb 0 ''y'']) (JNumber 5) []
     = (Inr (JNumber 10),
        intercepted (JNumber 10) [] [handler double_cb 0 ''y'']
          [observer log_cb 0 ''y'', observer log_cb 0 ''y''], [])
   \<and> write_field
        (intercepted (JNumber 3) [] [handler double_cb 0 ''y'']
          [observer log_cb 0 ''y'', observer log_cb 0 ''y'']) (JNumber 5) []
     = (Inr (JNumber 10),
        intercepted (JNumber 10) [] [handler double_cb 0 ''y'']
          [observer log_cb 0 ''y'', observer log_cb 0 ''y''], [JNumber 10, JNumber 10])
   \<and> write_field
        (intercepted (JNumber 3) [] [handler double_cb 0 ''y''] [observer veto_cb 0 ''y''])
        (JNumber 5) ([] :: jsval list)
     = (Inl (Thrown (JString ''veto'')),
        intercepted (JNumber 10) [] [handler double_cb 0 ''y''] [observer veto_cb 0 ''y''], [])"
proof -
  let ?g = "\<lparr>get_value = JNumber 10, get_after = [],
             get_oldGet = (None :: jsval list getter option)\<rparr>"
  let ?g3 = "\<lparr>get_value = JNumber 3, get_after = [],
             get_oldGet = (None :: jsval list getter option)\<rparr>"
  let ?s = "\<lparr>set_before = [handler double_cb 0 ''y''],
             set_after = [observer log_cb 0 ''y'', observer log_cb 0 ''y''],
             set_oldset = (None :: jsval list setter option)\<rparr>"
  let ?t = "\<lparr>set_before = [handler double_cb 0 ''y''],
             set_after = [observer veto_cb 0 ''y''],
             set_oldset = (None :: jsval list setter option)\<rparr>"
  have i1: "afterSet 0 ''y'' log_cb (intercepted (JNumber 10) [] [handler double_cb 0 ''y''] []) []
     = (Inr (JObject 0),
        intercepted (JNumber 10) [] [handler double_cb 0 ''y''] [observer log_cb 0 ''y''], [])"
    by (simp add: afterSet_def ensure_get_def ensure_set_def intercepted_def get_def start_value_def)
  have i2: "afterSet 0 ''y'' log_cb
        (intercepted (JNumber 10) [] [handler double_cb 0 ''y''] [observer log_cb 0 ''y'']) []
     = (Inr (JObject 0),
        intercepted (JNumber 10) [] [handler double_cb 0 ''y'']
          [observer log_cb 0 ''y'', observer log_cb 0 ''y''], [])"
    by (simp add: afterSet_def ensure_get_def ensure_set_def intercepted_def get_def start_value_def)
  have ch: "set_after ?s
     = afterSetChain (intercepted (JNumber 10) [] [handler double_cb 0 ''y'']
          [observer log_cb 0 ''y'', observer log_cb 0 ''y''])"
    by (simp add: intercepted_def)
  have bf: "forEach_thread (set_before ?s) (JNumber 5) [] = (Inr (JNumber 10), [])"
    by (simp add: handler_def double_cb_def)
  have old: "forEach_notify
      (afterSetChain (intercepted (JNumber 10) [] [handler double_cb 0 ''y''] [])) (JNumber 10) []
     = (Inr (), [])"
    by (simp add: intercepted_def)
  have a1: "log_cb 0 ''y'' (JNumber 10) [] = (Inr (JNumber 1), [JNumber 10])"
    by (simp add: log_cb_def)
  have a2: "log_cb 0 ''y'' (JNumber 10) [JNumber 10] = (Inr (JNumber 2), [JNumber 10, JNumber 10])"
    by (simp add: log_cb_def)
  note t = afterSet_hooks_run_after_a_change [OF i1 i2 ch bf old a1 a2]
  have same: "(if strict_eq (JNumber 10) (get_value ?g) then [] else [JNumber 10, JNumber 10])
     = ([] :: jsval list)"
    by simp
  have changed: "(if strict_eq (JNumber 10) (get_value ?g3) then [] else [JNumber 10, JNumber 10])
     = [JNumber 10, JNumber 10]"
    by simp
  have up: "?g\<lparr>get_value := JNumber 10\<rparr> = ?g" "?g3\<lparr>get_value := JNumber 10\<rparr> = ?g"
    by simp_all
  have w1: "write_field (Hooked ?g (EngineSet ?s)) (JNumber 5) []
     = (Inr (JNumber 10), Hooked ?g (EngineSet ?s), [])"
    using t [of ?g] unfolding same up by blast
  have w2: "write_field (Hooked ?g3 (EngineSet ?s)) (JNumber 5) []
     = (Inr (JNumber 10), Hooked ?g (EngineSet ?s), [JNumber 10, JNumber 10])"
    using t [of ?g3] unfolding changed up by blast
  have bt: "forEach_thread (set_before ?t) (JNumber 5) [] = (Inr (JNumber 10), [])"
    by (simp add: handler_def double_cb_def)
  have ne: "\<not> strict_eq (JNumber 10) (get_value ?g3)"
    by simp
  have th: "forEach_notify (set_after ?t) (JNumber 10) [] = (Inl (Thrown (JString ''veto'')), [])"
    by (simp add: observer_def veto_cb_def)
  have w3: "write_field (Hooked ?g3 (EngineSet ?t)) (JNumber 5) []
     = (Inl (Thrown (JString ''veto'')), Hooked ?g (EngineSet ?t), [])"
    using t [of ?g3] bt ne th unfolding up by blast
  note steps = i1 [unfolded intercepted_def] i2 [unfolded intercepted_def] w1 w2 w3
  show ?thesis unfolding intercepted_def by (intro conjI steps)
qed



section \<open>Installing on a field\<close>

lemma get_returns:
  assumes "get g w = (Inr v, g1, w1)"
  shows "g1 = g\<lparr>get_value := v\<rparr>"
    and "\<exists>v0 wa. start_value g w = (Inr v0, wa) \<and> forEach_thread (get_after g) v0 wa = (Inr v, w1)"
  using assms by (auto simp: get_def split: prod.splits sum.splits)


lemma plain_field_read:
  "plain_field slot = Some v0 \<Longrightarrow> read_field slot w = (Inr v0, slot, w)"
  by (cases slot) auto

lemma plain_field_descriptor:
  "plain_field slot = Some v0 \<Longrightarrow> descriptor_get slot = None \<and> descriptor_set slot = None"
  by (cases slot) auto

text \<open>
  C8. One install call on a field that is plain (absent, or a data property with value
  \<open>v0\<close>). After \<open>afterGet\<close> the field has the engine getter with the one hook and an
  engine setter with empty chains: a write of \<open>v\<close> commits \<open>v\<close> and returns it, and the
  next read gives \<open>v\<close> to the hook and returns what the hook returns. After \<open>beforeSet\<close> or
  \<open>afterSet\<close> (on a value that is not callable) the field has the engine setter with the
  one hook in its own chain, the other two chains empty, and the engine getter: a read
  returns the stored value.
\<close>

theorem single_install_gives_both_paths:
  assumes "plain_field slot0 = Some v0"
  shows "afterGet object property cb slot0 w
      = (Inr (JObject object), intercepted v0 [handler cb object property] [] [], w)
    \<and> write_field (intercepted v0 [handler cb object property] [] []) v w
      = (Inr v, intercepted v [handler cb object property] [] [], w)
    \<and> read_field (intercepted v [handler cb object property] [] []) w
      = (case cb object property v w of
           (Inl e, w') \<Rightarrow> (Inl e, intercepted v [handler cb object property] [] [], w')
         | (Inr v', w') \<Rightarrow> (Inr v', intercepted v' [handler cb object property] [] [], w'))
    \<and> (\<not> is_function v0 \<longrightarrow>
          beforeSet object property cb slot0 w
            = (Inr (JObject object), intercepted v0 [] [handler cb object property] [], w)
        \<and> afterSet object property cb slot0 w
            = (Inr (JObject object), intercepted v0 [] [] [observer cb object property], w))
    \<and> read_field (intercepted v0 [] befores afters) w
      = (Inr v0, intercepted v0 [] befores afters, w)"
proof -
  note rd = plain_field_read [OF assms, of w]
  note ds = plain_field_descriptor [OF assms]
  have ag: "afterGet object property cb slot0 w
      = (Inr (JObject object), intercepted v0 [handler cb object property] [] [], w)"
    using afterGet_returns [OF rd, of object "property" cb] ds
    by (simp add: ensure_set_def intercepted_def)
  have wr: "write_field (intercepted v0 [handler cb object property] [] []) v w
      = (Inr v, intercepted v [handler cb object property] [] [], w)"
    by (simp add: intercepted_def set_js_def Let_def)
  have rr: "read_field (intercepted v [handler cb object property] [] []) w
      = (case cb object property v w of
           (Inl e, w') \<Rightarrow> (Inl e, intercepted v [handler cb object property] [] [], w')
         | (Inr v', w') \<Rightarrow> (Inr v', intercepted v' [handler cb object property] [] [], w'))"
    by (simp add: intercepted_def get_def start_value_def handler_def split: prod.splits sum.splits)
  have bs: "beforeSet object property cb slot0 w
            = (Inr (JObject object), intercepted v0 [] [handler cb object property] [], w)"
    if "\<not> is_function v0"
    using beforeSet_returns [OF rd that, of object "property" cb] ds
    by (simp add: ensure_get_def ensure_set_def intercepted_def)
  have as: "afterSet object property cb slot0 w
            = (Inr (JObject object), intercepted v0 [] [] [observer cb object property], w)"
    if "\<not> is_function v0"
    using afterSet_returns [OF rd that, of object "property" cb] ds
    by (simp add: ensure_get_def ensure_set_def intercepted_def)
  have r0: "read_field (intercepted v0 [] befores afters) w
      = (Inr v0, intercepted v0 [] befores afters, w)"
    by (simp add: intercepted_def get_def start_value_def)
  from ag wr rr bs as r0 show ?thesis by blast
qed

text \<open>
  On \<^verbatim>\<open>{x: 1}\<close> with \<^verbatim>\<open>v => v+1\<close>: after \<open>afterGet\<close> alone the write of 8 commits 8 and
  the next read gives 9; after \<open>beforeSet\<close> alone a read gives 1.
\<close>

theorem single_install_gives_both_paths_witness:
  "plain_field (DataProp (JNumber 1) :: unit slot) = Some (JNumber 1)
   \<and> afterGet 0 ''x'' inc_cb (DataProp (JNumber 1)) ()
      = (Inr (JObject 0), intercepted (JNumber 1) [handler inc_cb 0 ''x''] [] [], ())
   \<and> write_field (intercepted (JNumber 1) [handler inc_cb 0 ''x''] [] []) (JNumber 8) ()
      = (Inr (JNumber 8), intercepted (JNumber 8) [handler inc_cb 0 ''x''] [] [], ())
   \<and> read_field (intercepted (JNumber 8) [handler inc_cb 0 ''x''] [] []) ()
      = (Inr (JNumber 9), intercepted (JNumber 9) [handler inc_cb 0 ''x''] [] [], ())
   \<and> \<not> is_function (JNumber 1)
   \<and> beforeSet 0 ''x'' inc_cb (DataProp (JNumber 1)) ()
      = (Inr (JObject 0), intercepted (JNumber 1) [] [handler inc_cb 0 ''x''] [], ())
   \<and> afterSet 0 ''x'' inc_cb (DataProp (JNumber 1)) ()
      = (Inr (JObject 0), intercepted (JNumber 1) [] [] [observer inc_cb 0 ''x''], ())
   \<and> read_field (intercepted (JNumber 1) [] [handler inc_cb 0 ''x''] []) ()
      = (Inr (JNumber 1), intercepted (JNumber 1) [] [handler inc_cb 0 ''x''] [], ())"
proof -
  have p: "plain_field (DataProp (JNumber 1) :: unit slot) = Some (JNumber 1)" by simp
  have n: "\<not> is_function (JNumber 1)" by simp
  have c: "(case inc_cb 0 ''x'' (JNumber 8) () of
           (Inl e, w') \<Rightarrow> (Inl e, intercepted (JNumber 8) [handler inc_cb 0 ''x''] [] [], w')
         | (Inr v', w') \<Rightarrow> (Inr v', intercepted v' [handler inc_cb 0 ''x''] [] [], w'))
     = (Inr (JNumber 9), intercepted (JNumber 9) [handler inc_cb 0 ''x''] [] [], ())"
    by (simp add: inc_cb_def)
  note t = single_install_gives_both_paths [OF p,
      where object = 0 and property = "''x''" and cb = inc_cb and w = "()" and v = "JNumber 8"
        and befores = "[handler inc_cb 0 ''x'']" and afters = "[]", unfolded c]
  from t p n show ?thesis by blast
qed

text \<open>
  C9. The field is under interception already, and its getter, called now, would run the
  afterGet chain from the starting value to \<open>v\<close> and leave the world \<open>w1\<close>. Then each of
  the three install calls does what a read of the field does: the world after the call is
  \<open>w1\<close> (the chain has run once) and the cached value is \<open>v\<close>. On \<^verbatim>\<open>{x: 1}\<close> with
  \<^verbatim>\<open>v => v+1\<close> installed twice the cached value is 1 after the first call and 2 after the
  second, and the next read gives 4.
\<close>

theorem install_reads_the_field:
  assumes "get g w = (Inr v, g1, w1)"
  shows "g1 = g\<lparr>get_value := v\<rparr>
    \<and> (\<exists>v0 wa. start_value g w = (Inr v0, wa) \<and> forEach_thread (get_after g) v0 wa = (Inr v, w1))
    \<and> read_field (Hooked g s) w = (Inr v, Hooked g1 s, w1)
    \<and> afterGet object property cb (Hooked g s) w
        = (Inr (JObject object),
           Hooked (g1\<lparr>get_after := get_after g @ [handler cb object property]\<rparr>) s, w1)
    \<and> (\<exists>r s'. beforeSet object property cb (Hooked g s) w = (r, Hooked g1 s', w1))
    \<and> (\<exists>r s'. afterSet object property cb (Hooked g s) w = (r, Hooked g1 s', w1))
    \<and> (case afterGet object ''x'' inc_cb (DataProp (JNumber 1)) w of
          (r1, f1, u1) \<Rightarrow>
            (case afterGet object ''x'' inc_cb f1 u1 of
               (r2, f2, u2) \<Rightarrow>
                 cachedValue f1 = JNumber 1 \<and> cachedValue f2 = JNumber 2
                 \<and> fst (read_field f2 u2) = Inr (JNumber 4)))"
proof -
  note g = get_returns [OF assms]
  have rd: "read_field (Hooked g s) w = (Inr v, Hooked g1 s, w1)"
    using assms by simp
  have ag: "afterGet object property cb (Hooked g s) w
        = (Inr (JObject object),
           Hooked (g1\<lparr>get_after := get_after g @ [handler cb object property]\<rparr>) s, w1)"
    using afterGet_returns [OF rd, of object "property" cb] g(1) by (simp add: ensure_set_def)
  have bs: "\<exists>r s'. beforeSet object property cb (Hooked g s) w = (r, Hooked g1 s', w1)"
  proof (cases "is_function v")
    case True
    from beforeSet_refuses [OF rd True] show ?thesis by blast
  next
    case False
    from beforeSet_returns [OF rd False, of object "property" cb] show ?thesis
      by (simp add: ensure_get_def)
  qed
  have as: "\<exists>r s'. afterSet object property cb (Hooked g s) w = (r, Hooked g1 s', w1)"
  proof (cases "is_function v")
    case True
    from afterSet_refuses [OF rd True] show ?thesis by blast
  next
    case False
    from afterSet_returns [OF rd False, of object "property" cb] show ?thesis
      by (simp add: ensure_get_def)
  qed
  have ex: "(case afterGet object ''x'' inc_cb (DataProp (JNumber 1)) w of
          (r1, f1, u1) \<Rightarrow>
            (case afterGet object ''x'' inc_cb f1 u1 of
               (r2, f2, u2) \<Rightarrow>
                 cachedValue f1 = JNumber 1 \<and> cachedValue f2 = JNumber 2
                 \<and> fst (read_field f2 u2) = Inr (JNumber 4)))"
    by (simp add: afterGet_def ensure_set_def get_def start_value_def handler_def inc_cb_def)
  from g rd ag bs as ex show ?thesis by blast
qed

text \<open>
  On \<^verbatim>\<open>{x: 1}\<close> under \<^verbatim>\<open>v => v+1\<close>, each kind of install call leaves the cached value 2.
\<close>

theorem install_reads_the_field_witness:
  "get \<lparr>get_value = JNumber 1, get_after = [handler inc_cb 0 ''x''], get_oldGet = None\<rparr> ()
     = (Inr (JNumber 2),
        \<lparr>get_value = JNumber 2, get_after = [handler inc_cb 0 ''x''], get_oldGet = None\<rparr>, ())
   \<and> afterGet 0 ''x'' double_cb (intercepted (JNumber 1) [handler inc_cb 0 ''x''] [] []) ()
     = (Inr (JObject 0),
        intercepted (JNumber 2) [handler inc_cb 0 ''x'', handler double_cb 0 ''x''] [] [], ())
   \<and> (\<exists>r s'. beforeSet 0 ''x'' double_cb (intercepted (JNumber 1) [handler inc_cb 0 ''x''] [] []) ()
     = (r, Hooked \<lparr>get_value = JNumber 2, get_after = [handler inc_cb 0 ''x''],
                   get_oldGet = None\<rparr> s', ()))
   \<and> (\<exists>r s'. afterSet 0 ''x'' double_cb (intercepted (JNumber 1) [handler inc_cb 0 ''x''] [] []) ()
     = (r, Hooked \<lparr>get_value = JNumber 2, get_after = [handler inc_cb 0 ''x''],
                   get_oldGet = None\<rparr> s', ()))"
proof -
  let ?g = "\<lparr>get_value = JNumber 1, get_after = [handler inc_cb 0 ''x''],
             get_oldGet = (None :: unit getter option)\<rparr>"
  let ?g1 = "\<lparr>get_value = JNumber 2, get_after = [handler inc_cb 0 ''x''],
             get_oldGet = (None :: unit getter option)\<rparr>"
  let ?s = "EngineSet \<lparr>set_before = [], set_after = [], set_oldset = (None :: unit setter option)\<rparr>"
  have g: "get ?g () = (Inr (JNumber 2), ?g1, ())"
    by (simp add: get_def start_value_def handler_def inc_cb_def)
  have e1: "intercepted (JNumber 1) [handler inc_cb 0 ''x''] [] [] = Hooked ?g ?s"
    by (simp add: intercepted_def)
  have e2: "intercepted (JNumber 2) [handler inc_cb 0 ''x'', handler double_cb 0 ''x''] [] []
     = Hooked (?g1\<lparr>get_after := get_after ?g @ [handler double_cb 0 ''x'']\<rparr>) ?s"
    by (simp add: intercepted_def)
  note t = install_reads_the_field [OF g,
      where s = ?s and object = 0 and property = "''x''" and cb = double_cb]
  from t g show ?thesis unfolding e1 e2 by blast
qed

section \<open>Sequences of installs, and the getter that was there before\<close>

lemma getter_field_read:
  "oldget w0 = (Inr v0, w1) \<Longrightarrow>
   read_field (PlainAccessor (Some oldget) so) w0 = (Inr v0, PlainAccessor (Some oldget) so, w1)"
  by simp

text \<open>
  C7, as the spec states it, fails. The field has a getter that returns 7 and counts its
  invocations. \<open>afterGet\<close> invokes it once (count 1) and caches 7; the first read does not
  invoke it (count 1); a write commits \<^verbatim>\<open>undefined\<close>; the next read invokes the old getter
  again (count 2) and returns 7, not the committed \<^verbatim>\<open>undefined\<close>.
\<close>

theorem prior_getter_invoked_again_counterexample:
  "afterGet 0 ''x'' keep_cb (PlainAccessor (Some counting_getter) None) 0
     = (Inr (JObject 0), over_getter counting_getter (JNumber 7) [handler keep_cb 0 ''x''], 1)
   \<and> read_field (over_getter counting_getter (JNumber 7) [handler keep_cb 0 ''x'']) 1
     = (Inr (JNumber 7), over_getter counting_getter (JNumber 7) [handler keep_cb 0 ''x''], 1)
   \<and> write_field (over_getter counting_getter (JNumber 7) [handler keep_cb 0 ''x'']) JUndefined 1
     = (Inr JUndefined, over_getter counting_getter JUndefined [handler keep_cb 0 ''x''], 1)
   \<and> read_field (over_getter counting_getter JUndefined [handler keep_cb 0 ''x'']) 1
     = (Inr (JNumber 7), over_getter counting_getter (JNumber 7) [handler keep_cb 0 ''x''], 2)"
  by (simp add: afterGet_def ensure_set_def over_getter_def get_def start_value_def set_js_def
      Let_def handler_def keep_cb_def counting_getter_def)

text \<open>
  C7, amended. A field has the getter \<open>oldget\<close>, which called in the world \<open>w0\<close> returns \<open>v0\<close>
  and leaves \<open>w1\<close>. An install call on it invokes \<open>oldget\<close> once: the world after the call
  is \<open>w1\<close>, the cached value is \<open>v0\<close> and the engine getter keeps \<open>oldget\<close>. A later read
  that starts from a cached value other than \<^verbatim>\<open>undefined\<close> runs the afterGet chain from
  that value in the world as it is: \<open>oldget\<close> is not invoked. A read that starts from the
  cached value \<^verbatim>\<open>undefined\<close> invokes \<open>oldget\<close> and runs the chain from what it returns.
  What a write returns and the world it leaves are the same with and without \<open>oldget\<close>: a
  write does not invoke it.
\<close>

theorem prior_getter_consulted_only_from_undefined:
  assumes seed: "oldget w0 = (Inr v0, w1)"
  shows "(\<exists>s. afterGet object property cb (PlainAccessor (Some oldget) so) w0
            = (Inr (JObject object),
               Hooked \<lparr>get_value = v0, get_after = [handler cb object property],
                       get_oldGet = Some oldget\<rparr> s, w1))
    \<and> (\<not> is_function v0 \<longrightarrow>
          (\<exists>s. beforeSet object property cb (PlainAccessor (Some oldget) so) w0
                  = (Inr (JObject object),
                     Hooked \<lparr>get_value = v0, get_after = [], get_oldGet = Some oldget\<rparr> s, w1))
          \<and> (\<exists>s. afterSet object property cb (PlainAccessor (Some oldget) so) w0
                  = (Inr (JObject object),
                     Hooked \<lparr>get_value = v0, get_after = [], get_oldGet = Some oldget\<rparr> s, w1)))
    \<and> (get_value g \<noteq> JUndefined \<longrightarrow>
          read_field (Hooked g s) w
            = (case forEach_thread (get_after g) (get_value g) w of
                 (Inl e, w') \<Rightarrow> (Inl e, Hooked g s, w')
               | (Inr v', w') \<Rightarrow> (Inr v', Hooked (g\<lparr>get_value := v'\<rparr>) s, w')))
    \<and> read_field (Hooked (g\<lparr>get_value := JUndefined, get_oldGet := Some oldget\<rparr>) s) w0
        = (case forEach_thread (get_after g) v0 w1 of
             (Inl e, w') \<Rightarrow>
               (Inl e, Hooked (g\<lparr>get_value := JUndefined, get_oldGet := Some oldget\<rparr>) s, w')
           | (Inr v', w') \<Rightarrow>
               (Inr v', Hooked (g\<lparr>get_value := v', get_oldGet := Some oldget\<rparr>) s, w'))
    \<and> fst (write_field (Hooked (g\<lparr>get_oldGet := Some oldget\<rparr>) t) v w)
        = fst (write_field (Hooked (g\<lparr>get_oldGet := None\<rparr>) t) v w)
    \<and> snd (snd (write_field (Hooked (g\<lparr>get_oldGet := Some oldget\<rparr>) t) v w))
        = snd (snd (write_field (Hooked (g\<lparr>get_oldGet := None\<rparr>) t) v w))"
proof -
  note rd = getter_field_read [of oldget w0 v0 w1 so, OF seed]
  have ag: "\<exists>s. afterGet object property cb (PlainAccessor (Some oldget) so) w0
            = (Inr (JObject object),
               Hooked \<lparr>get_value = v0, get_after = [handler cb object property],
                       get_oldGet = Some oldget\<rparr> s, w1)"
    using afterGet_returns [OF rd, of object "property" cb] by simp
  have bs: "\<exists>s. beforeSet object property cb (PlainAccessor (Some oldget) so) w0
                  = (Inr (JObject object),
                     Hooked \<lparr>get_value = v0, get_after = [], get_oldGet = Some oldget\<rparr> s, w1)"
    if "\<not> is_function v0"
    using beforeSet_returns [OF rd that, of object "property" cb] by (simp add: ensure_get_def)
  have as: "\<exists>s. afterSet object property cb (PlainAccessor (Some oldget) so) w0
                  = (Inr (JObject object),
                     Hooked \<lparr>get_value = v0, get_after = [], get_oldGet = Some oldget\<rparr> s, w1)"
    if "\<not> is_function v0"
    using afterSet_returns [OF rd that, of object "property" cb] by (simp add: ensure_get_def)
  have defined: "read_field (Hooked g s) w
            = (case forEach_thread (get_after g) (get_value g) w of
                 (Inl e, w') \<Rightarrow> (Inl e, Hooked g s, w')
               | (Inr v', w') \<Rightarrow> (Inr v', Hooked (g\<lparr>get_value := v'\<rparr>) s, w'))"
    if "get_value g \<noteq> JUndefined"
    using that by (simp add: get_def start_value_def split: option.splits prod.splits sum.splits)
  have undefined: "read_field (Hooked (g\<lparr>get_value := JUndefined, get_oldGet := Some oldget\<rparr>) s) w0
        = (case forEach_thread (get_after g) v0 w1 of
             (Inl e, w') \<Rightarrow>
               (Inl e, Hooked (g\<lparr>get_value := JUndefined, get_oldGet := Some oldget\<rparr>) s, w')
           | (Inr v', w') \<Rightarrow>
               (Inr v', Hooked (g\<lparr>get_value := v', get_oldGet := Some oldget\<rparr>) s, w'))"
    using seed by (simp add: get_def start_value_def split: prod.splits sum.splits)
  have wr: "fst (write_field (Hooked (g\<lparr>get_oldGet := Some oldget\<rparr>) t) v w)
        = fst (write_field (Hooked (g\<lparr>get_oldGet := None\<rparr>) t) v w)
     \<and> snd (snd (write_field (Hooked (g\<lparr>get_oldGet := Some oldget\<rparr>) t) v w))
        = snd (snd (write_field (Hooked (g\<lparr>get_oldGet := None\<rparr>) t) v w))"
    by (cases t) (simp_all add: set_js_def Let_def split: prod.splits sum.splits)
  from ag bs as defined undefined wr show ?thesis by blast
qed

text \<open>
  With the counting getter: the installs leave the count at 1, and a read from the cached
  value 7 leaves the count as it is.
\<close>

theorem prior_getter_consulted_only_from_undefined_witness:
  "counting_getter 0 = (Inr (JNumber 7), Suc 0)
   \<and> \<not> is_function (JNumber 7)
   \<and> (\<exists>s. afterGet 0 ''x'' keep_cb (PlainAccessor (Some counting_getter) None) 0
            = (Inr (JObject 0),
               Hooked \<lparr>get_value = JNumber 7, get_after = [handler keep_cb 0 ''x''],
                       get_oldGet = Some counting_getter\<rparr> s, Suc 0))
   \<and> (\<exists>s. beforeSet 0 ''x'' keep_cb (PlainAccessor (Some counting_getter) None) 0
            = (Inr (JObject 0),
               Hooked \<lparr>get_value = JNumber 7, get_after = [],
                       get_oldGet = Some counting_getter\<rparr> s, Suc 0))
   \<and> get_value \<lparr>get_value = JNumber 7, get_after = [handler keep_cb 0 ''x''],
                  get_oldGet = Some counting_getter\<rparr> \<noteq> JUndefined
   \<and> read_field (over_getter counting_getter (JNumber 7) [handler keep_cb 0 ''x'']) 5
       = (Inr (JNumber 7), over_getter counting_getter (JNumber 7) [handler keep_cb 0 ''x''], 5)"
proof -
  let ?g = "\<lparr>get_value = JNumber 7, get_after = [handler keep_cb 0 ''x''],
             get_oldGet = Some counting_getter\<rparr>"
  let ?s = "EngineSet \<lparr>set_before = [], set_after = [], set_oldset = (None :: nat setter option)\<rparr>"
  have seed: "counting_getter 0 = (Inr (JNumber 7), Suc 0)"
    by (simp add: counting_getter_def)
  have nf: "\<not> is_function (JNumber 7)" by simp
  have df: "get_value ?g \<noteq> JUndefined" by simp
  have c: "(case forEach_thread (get_after ?g) (get_value ?g) 5 of
              (Inl e, w') \<Rightarrow> (Inl e, Hooked ?g ?s, w')
            | (Inr v', w') \<Rightarrow> (Inr v', Hooked (?g\<lparr>get_value := v'\<rparr>) ?s, w'))
     = (Inr (JNumber 7), Hooked ?g ?s, 5)"
    by (simp add: handler_def keep_cb_def)
  note t = prior_getter_consulted_only_from_undefined [of counting_getter 0 "JNumber 7" "Suc 0",
      OF seed, where object = 0 and property = "''x''" and cb = keep_cb and so = None
        and g = ?g and s = ?s and w = 5 and t = ?s and v = JUndefined, unfolded c]
  from t seed nf df show ?thesis unfolding over_getter_def by blast
qed

section \<open>Hooks after a sequence of installs\<close>

lemma call_in_turn_handlers:
  "forEach_thread (map (\<lambda>cb. handler cb object property) cbs) v w
     = call_in_turn object property cbs v w"
  by (induction cbs arbitrary: v w) (auto simp: handler_def split: prod.splits sum.splits)

lemma tell_in_turn_observers:
  "forEach_notify (map (\<lambda>cb. observer cb object property) cbs) v w
     = tell_in_turn object property cbs v w"
  by (induction cbs arbitrary: w) (auto simp: observer_def split: prod.splits sum.splits)

lemma and_then_returned:
  "and_then (Inr a, w) next = next a w"
  by (simp add: and_then_def)

lemma call_in_turn_loop:
  "call_in_turn object property cbs = forEach_thread (map (\<lambda>cb. handler cb object property) cbs)"
  by (intro ext) (simp add: call_in_turn_handlers)

lemma tell_in_turn_loop:
  "tell_in_turn object property cbs = forEach_notify (map (\<lambda>cb. observer cb object property) cbs)"
  by (intro ext) (simp add: tell_in_turn_observers)

lemma forEach_thread_and_then:
  "forEach_thread (xs @ ys) v w = and_then (forEach_thread xs v w) (forEach_thread ys)"
  by (simp add: forEach_thread_append and_then_def)

lemma forEach_notify_and_then:
  "forEach_notify (xs @ ys) v w = and_then (forEach_notify xs v w) (\<lambda>u. forEach_notify ys v)"
  by (simp add: forEach_notify_append and_then_def)

lemma install_chains:
  assumes "install object property c slot w = (r, slot1, w1)"
  shows "afterGetChain slot1
      = afterGetChain slot @ map (\<lambda>cb. handler cb object property) (afterGet_callbacks object [c] [r])
    \<and> beforeSetChain slot1
      = map (\<lambda>cb. handler cb object property) (beforeSet_callbacks object [c] [r]) @ beforeSetChain slot
    \<and> afterSetChain slot1
      = afterSetChain slot @ map (\<lambda>cb. observer cb object property) (afterSet_callbacks object [c] [r])"
proof (cases c)
  case (AfterGetCall cb)
  with assms afterGet_chains [of object "property" cb slot w r slot1 w1] show ?thesis by simp
next
  case (BeforeSetCall cb)
  with assms beforeSet_chains [of object "property" cb slot w r slot1 w1] show ?thesis by simp
next
  case (AfterSetCall cb)
  with assms afterSet_chains [of object "property" cb slot w r slot1 w1] show ?thesis by simp
qed

lemma afterGet_callbacks_Cons:
  "afterGet_callbacks object (c # cs) (r # rs)
     = afterGet_callbacks object [c] [r] @ afterGet_callbacks object cs rs"
  by (cases c) simp_all

lemma beforeSet_callbacks_Cons:
  "beforeSet_callbacks object (c # cs) (r # rs)
     = beforeSet_callbacks object [c] [r] @ beforeSet_callbacks object cs rs"
  by (cases c) simp_all

lemma afterSet_callbacks_Cons:
  "afterSet_callbacks object (c # cs) (r # rs)
     = afterSet_callbacks object [c] [r] @ afterSet_callbacks object cs rs"
  by (cases c) simp_all

lemma beforeSet_callbacks_one:
  "rev (beforeSet_callbacks object [c] [r]) = beforeSet_callbacks object [c] [r]"
  by (cases c) simp_all

lemma install_all_chains:
  "install_all object property cs slot w = (rs, slot', w') \<Longrightarrow>
   afterGetChain slot'
     = afterGetChain slot @ map (\<lambda>cb. handler cb object property) (afterGet_callbacks object cs rs)
   \<and> beforeSetChain slot'
     = map (\<lambda>cb. handler cb object property) (rev (beforeSet_callbacks object cs rs))
         @ beforeSetChain slot
   \<and> afterSetChain slot'
     = afterSetChain slot @ map (\<lambda>cb. observer cb object property) (afterSet_callbacks object cs rs)"
proof (induction cs arbitrary: slot w rs)
  case Nil
  then show ?case by simp
next
  case (Cons c cs)
  obtain r slot1 w1 where one: "install object property c slot w = (r, slot1, w1)"
    by (cases "install object property c slot w") auto
  obtain rs1 where rest: "install_all object property cs slot1 w1 = (rs1, slot', w')"
    and rs: "rs = r # rs1"
    using Cons.prems one by (auto split: prod.splits)
  note ih = Cons.IH [OF rest]
  note st = install_chains [OF one]
  have "afterGetChain slot'
      = afterGetChain slot @ map (\<lambda>cb. handler cb object property) (afterGet_callbacks object (c # cs) rs)"
    using ih st by (simp add: rs afterGet_callbacks_Cons [of object c cs r rs1])
  moreover have "beforeSetChain slot'
      = map (\<lambda>cb. handler cb object property) (rev (beforeSet_callbacks object (c # cs) rs))
          @ beforeSetChain slot"
    using ih st
    by (simp add: rs beforeSet_callbacks_Cons [of object c cs r rs1] beforeSet_callbacks_one)
  moreover have "afterSetChain slot'
      = afterSetChain slot @ map (\<lambda>cb. observer cb object property) (afterSet_callbacks object (c # cs) rs)"
    using ih st by (simp add: rs afterSet_callbacks_Cons [of object c cs r rs1])
  ultimately show ?case by blast
qed

text \<open>
  C6. Any sequence of install calls of the three kinds on one field, from any state of the
  field, whatever each call returns or throws, after which the field is intercepted. The
  chains of before are still there, added to and not made anew: the afterGet chain is
  the old chain followed by the afterGet callbacks that the sequence registered, oldest
  first; the beforeSet chain is the registered beforeSet callbacks, newest first,
  followed by the old chain; the afterSet chain is the old chain followed by the
  registered afterSet callbacks, oldest first. And every hook still runs at its place. A
  read after the sequence takes the starting value through the old afterGet handlers and
  then through the registered callbacks in turn, and stores and returns their result
  \<open>vr\<close>. A write of \<open>v\<close> after the sequence (the field has the engine setter) takes \<open>v\<close>
  through the registered beforeSet callbacks, newest first, and then through the old
  handlers, commits their result \<open>vc\<close> and returns it; when \<open>vc\<close> is not strictly equal to
  the cached value, the old afterSet handlers and then the registered callbacks in turn
  have each been given \<open>vc\<close>.
\<close>

theorem installs_keep_registered_hooks:
  assumes seq: "install_all object property cs slot w = (rs, slot', w')"
    and hooked: "slot' = Hooked g' t'"
    and rd: "and_then (and_then (start_value g' u) (forEach_thread (afterGetChain slot)))
               (call_in_turn object property (afterGet_callbacks object cs rs)) = (Inr vr, ur)"
    and bf: "and_then (call_in_turn object property (rev (beforeSet_callbacks object cs rs)) v u)
               (forEach_thread (beforeSetChain slot)) = (Inr vc, u1)"
    and ob: "and_then (forEach_notify (afterSetChain slot) vc u1)
               (\<lambda>x. tell_in_turn object property (afterSet_callbacks object cs rs) vc) = (Inr y, u2)"
  shows "afterGetChain slot'
      = afterGetChain slot @ map (\<lambda>cb. handler cb object property) (afterGet_callbacks object cs rs)
    \<and> beforeSetChain slot'
      = map (\<lambda>cb. handler cb object property) (rev (beforeSet_callbacks object cs rs))
          @ beforeSetChain slot
    \<and> afterSetChain slot'
      = afterSetChain slot @ map (\<lambda>cb. observer cb object property) (afterSet_callbacks object cs rs)
    \<and> prefix (afterGetChain slot) (afterGetChain slot')
    \<and> suffix (beforeSetChain slot) (beforeSetChain slot')
    \<and> prefix (afterSetChain slot) (afterSetChain slot')
    \<and> read_field slot' u = (Inr vr, Hooked (g'\<lparr>get_value := vr\<rparr>) t', ur)
    \<and> (\<forall>s'. t' = EngineSet s' \<longrightarrow>
          write_field slot' v u
            = (Inr vc, Hooked (g'\<lparr>get_value := vc\<rparr>) t',
               if strict_eq vc (get_value g') then u1 else u2))"
proof -
  note ch = install_all_chains [OF seq]
  have pre: "prefix (afterGetChain slot) (afterGetChain slot')
    \<and> suffix (beforeSetChain slot) (beforeSetChain slot')
    \<and> prefix (afterSetChain slot) (afterSetChain slot')"
    using ch by (simp add: prefix_def suffix_def)
  have gch: "get_after g'
      = afterGetChain slot @ map (\<lambda>cb. handler cb object property) (afterGet_callbacks object cs rs)"
    using ch hooked by simp
  obtain v0 ua where sv: "start_value g' u = (Inr v0, ua)"
    using rd by (auto simp: and_then_def split: prod.splits sum.splits)
  have "forEach_thread (get_after g') v0 ua = (Inr vr, ur)"
    using rd sv
    by (simp add: gch forEach_thread_and_then call_in_turn_loop and_then_returned)
  from get_runs_chain [OF sv this]
  have reads: "read_field slot' u = (Inr vr, Hooked (g'\<lparr>get_value := vr\<rparr>) t', ur)"
    using hooked by simp
  have writes: "write_field slot' v u
            = (Inr vc, Hooked (g'\<lparr>get_value := vc\<rparr>) t',
               if strict_eq vc (get_value g') then u1 else u2)"
    if t: "t' = EngineSet s'" for s'
  proof -
    have b: "set_before s'
        = map (\<lambda>cb. handler cb object property) (rev (beforeSet_callbacks object cs rs))
            @ beforeSetChain slot"
      and a: "set_after s'
        = afterSetChain slot @ map (\<lambda>cb. observer cb object property) (afterSet_callbacks object cs rs)"
      using ch hooked t by simp_all
    have bt: "forEach_thread (set_before s') v u = (Inr vc, u1)"
      using bf by (simp add: b forEach_thread_and_then call_in_turn_loop)
    have an: "forEach_notify (set_after s') vc u1 = (Inr (), u2)"
      using ob by (simp add: a forEach_notify_and_then tell_in_turn_loop)
    from write_field_commits [OF bt, of g'] an show ?thesis
      using hooked t by simp
  qed
  from ch pre reads writes show ?thesis by blast
qed

text \<open>
  A field with one hook in each chain and four more install calls. The next read gives
  (30 + 1) * 2 = 62: the old \<^verbatim>\<open>v => v+1\<close>, then the new \<^verbatim>\<open>v => v*2\<close>. A write of 5 commits
  (5 + 1) * 2 = 12: the two new beforeSet hooks, newest first, then the old \<^verbatim>\<open>v => v*2\<close>;
  the log then holds 12, from the old afterSet hook, and the field's name, from the new
  one.
\<close>

theorem installs_keep_registered_hooks_witness:
  "install_all 0 ''x''
      [AfterGetCall double_cb, BeforeSetCall inc_cb, AfterSetCall mark_cb, BeforeSetCall keep_cb]
      (intercepted (JNumber 1) [handler inc_cb 0 ''x''] [handler double_cb 0 ''x'']
         [observer log_cb 0 ''x'']) []
     = ([Inr (JObject 0), Inr (JObject 0), Inr (JObject 0), Inr (JObject 0)],
        intercepted (JNumber 30) [handler inc_cb 0 ''x'', handler double_cb 0 ''x'']
          [handler keep_cb 0 ''x'', handler inc_cb 0 ''x'', handler double_cb 0 ''x'']
          [observer log_cb 0 ''x'', observer mark_cb 0 ''x''], [])
   \<and> read_field
        (intercepted (JNumber 30) [handler inc_cb 0 ''x'', handler double_cb 0 ''x'']
          [handler keep_cb 0 ''x'', handler inc_cb 0 ''x'', handler double_cb 0 ''x'']
          [observer log_cb 0 ''x'', observer mark_cb 0 ''x'']) []
     = (Inr (JNumber 62),
        intercepted (JNumber 62) [handler inc_cb 0 ''x'', handler double_cb 0 ''x'']
          [handler keep_cb 0 ''x'', handler inc_cb 0 ''x'', handler double_cb 0 ''x'']
          [observer log_cb 0 ''x'', observer mark_cb 0 ''x''], [])
   \<and> write_field
        (intercepted (JNumber 30) [handler inc_cb 0 ''x'', handler double_cb 0 ''x'']
          [handler keep_cb 0 ''x'', handler inc_cb 0 ''x'', handler double_cb 0 ''x'']
          [observer log_cb 0 ''x'', observer mark_cb 0 ''x'']) (JNumber 5) []
     = (Inr (JNumber 12),
        intercepted (JNumber 12) [handler inc_cb 0 ''x'', handler double_cb 0 ''x'']
          [handler keep_cb 0 ''x'', handler inc_cb 0 ''x'', handler double_cb 0 ''x'']
          [observer log_cb 0 ''x'', observer mark_cb 0 ''x''], [JNumber 12, JString ''x''])"
proof -
  let ?cs = "[AfterGetCall double_cb, BeforeSetCall inc_cb, AfterSetCall mark_cb,
              BeforeSetCall keep_cb]"
  let ?rs = "[Inr (JObject 0), Inr (JObject 0), Inr (JObject 0), Inr (JObject 0)] :: (exn + jsval) list"
  let ?slot = "intercepted (JNumber 1) [handler inc_cb 0 ''x''] [handler double_cb 0 ''x'']
         [observer log_cb 0 ''x''] :: jsval list slot"
  let ?g = "\<lparr>get_value = JNumber 30,
             get_after = [handler inc_cb 0 ''x'', handler double_cb 0 ''x''],
             get_oldGet = (None :: jsval list getter option)\<rparr>"
  let ?s = "\<lparr>set_before = [handler keep_cb 0 ''x'', handler inc_cb 0 ''x'', handler double_cb 0 ''x''],
             set_after = [observer log_cb 0 ''x'', observer mark_cb 0 ''x''],
             set_oldset = (None :: jsval list setter option)\<rparr>"
  have run: "install_all 0 ''x'' ?cs ?slot []
     = (?rs,
        intercepted (JNumber 30) [handler inc_cb 0 ''x'', handler double_cb 0 ''x'']
          [handler keep_cb 0 ''x'', handler inc_cb 0 ''x'', handler double_cb 0 ''x'']
          [observer log_cb 0 ''x'', observer mark_cb 0 ''x''], [])"
    by (simp add: afterGet_def beforeSet_def afterSet_def ensure_get_def ensure_set_def get_def
        start_value_def intercepted_def handler_def inc_cb_def double_cb_def)
  have hooked: "intercepted (JNumber 30) [handler inc_cb 0 ''x'', handler double_cb 0 ''x'']
          [handler keep_cb 0 ''x'', handler inc_cb 0 ''x'', handler double_cb 0 ''x'']
          [observer log_cb 0 ''x'', observer mark_cb 0 ''x''] = Hooked ?g (EngineSet ?s)"
    by (simp add: intercepted_def)
  have rd: "and_then (and_then (start_value ?g []) (forEach_thread (afterGetChain ?slot)))
               (call_in_turn 0 ''x'' (afterGet_callbacks 0 ?cs ?rs)) = (Inr (JNumber 62), [])"
    by (simp add: and_then_def start_value_def intercepted_def handler_def inc_cb_def double_cb_def)
  have bf: "and_then (call_in_turn 0 ''x'' (rev (beforeSet_callbacks 0 ?cs ?rs)) (JNumber 5) [])
               (forEach_thread (beforeSetChain ?slot)) = (Inr (JNumber 12), [])"
    by (simp add: and_then_def intercepted_def handler_def inc_cb_def double_cb_def keep_cb_def)
  have ob: "and_then (forEach_notify (afterSetChain ?slot) (JNumber 12) [])
               (\<lambda>x. tell_in_turn 0 ''x'' (afterSet_callbacks 0 ?cs ?rs) (JNumber 12))
     = (Inr (), [JNumber 12, JString ''x''])"
    by (simp add: and_then_def intercepted_def observer_def log_cb_def mark_cb_def)
  note t = installs_keep_registered_hooks [OF run hooked rd bf ob]
  have e62: "intercepted (JNumber 62) [handler inc_cb 0 ''x'', handler double_cb 0 ''x'']
          [handler keep_cb 0 ''x'', handler inc_cb 0 ''x'', handler double_cb 0 ''x'']
          [observer log_cb 0 ''x'', observer mark_cb 0 ''x'']
     = Hooked (?g\<lparr>get_value := JNumber 62\<rparr>) (EngineSet ?s)"
    by (simp add: intercepted_def)
  have e12: "intercepted (JNumber 12) [handler inc_cb 0 ''x'', handler double_cb 0 ''x'']
          [handler keep_cb 0 ''x'', handler inc_cb 0 ''x'', handler double_cb 0 ''x'']
          [observer log_cb 0 ''x'', observer mark_cb 0 ''x'']
     = Hooked (?g\<lparr>get_value := JNumber 12\<rparr>) (EngineSet ?s)"
    by (simp add: intercepted_def)
  have ch: "(if strict_eq (JNumber 12) (get_value ?g) then [] else [JNumber 12, JString ''x''])
     = [JNumber 12, JString ''x'']"
    by simp
  from t have r: "read_field
        (intercepted (JNumber 30) [handler inc_cb 0 ''x'', handler double_cb 0 ''x'']
          [handler keep_cb 0 ''x'', handler inc_cb 0 ''x'', handler double_cb 0 ''x'']
          [observer log_cb 0 ''x'', observer mark_cb 0 ''x'']) []
     = (Inr (JNumber 62), Hooked (?g\<lparr>get_value := JNumber 62\<rparr>) (EngineSet ?s), [])"
    by (elim conjE)
  from t have "\<forall>s'. EngineSet ?s = EngineSet s' \<longrightarrow>
      write_field
        (intercepted (JNumber 30) [handler inc_cb 0 ''x'', handler double_cb 0 ''x'']
          [handler keep_cb 0 ''x'', handler inc_cb 0 ''x'', handler double_cb 0 ''x'']
          [observer log_cb 0 ''x'', observer mark_cb 0 ''x'']) (JNumber 5) []
     = (Inr (JNumber 12), Hooked (?g\<lparr>get_value := JNumber 12\<rparr>) (EngineSet ?s),
        if strict_eq (JNumber 12) (get_value ?g) then [] else [JNumber 12, JString ''x''])"
    by (elim conjE)
  then have wr: "write_field
        (intercepted (JNumber 30) [handler inc_cb 0 ''x'', handler double_cb 0 ''x'']
          [handler keep_cb 0 ''x'', handler inc_cb 0 ''x'', handler double_cb 0 ''x'']
          [observer log_cb 0 ''x'', observer mark_cb 0 ''x'']) (JNumber 5) []
     = (Inr (JNumber 12), Hooked (?g\<lparr>get_value := JNumber 12\<rparr>) (EngineSet ?s),
        [JNumber 12, JString ''x''])"
    unfolding ch by blast
  show ?thesis unfolding e62 e12 by (intro conjI run r wr)
qed

section \<open>Installing on a field that holds a function\<close>

lemma with_defineProperty_passes:
  assumes "routine slot w = (r, slot', w')"
    and "\<And>object. r \<noteq> Inr (JObject object)"
  shows "with_defineProperty c routine slot w = (r, slot', w')"
proof (cases r)
  case (Inl e)
  with assms(1) show ?thesis
    by (simp add: with_defineProperty_def split: prod.splits)
next
  case (Inr v)
  show ?thesis
  proof (cases v)
    case (JObject n)
    with Inr assms(2) [of n] show ?thesis by simp
  qed (use Inr assms(1) in \<open>simp_all add: with_defineProperty_def split: prod.splits\<close>)
qed

lemma with_defineProperty_defines:
  assumes "read_field slot w = (r1, slot1, w1)"
    and "routine slot w = (Inr (JObject object), slot', w')"
  shows "with_defineProperty c routine slot w =
     (case defineProperty c slot1 slot' of
        Inr defined \<Rightarrow> (Inr (JObject object), defined, w')
      | Inl e \<Rightarrow> (Inl e, slot1, w'))"
  using assms by (simp add: with_defineProperty_def)

lemma defineProperty_configurable:
  "defineProperty True current descriptor = Inr descriptor"
  by (cases current) simp_all



lemma with_defineProperty_configurable:
  "with_defineProperty True routine slot w = routine slot w"
proof -
  obtain r slot' w' where rt: "routine slot w = (r, slot', w')"
    by (cases "routine slot w") auto
  obtain r1 slot1 w1 where rd: "read_field slot w = (r1, slot1, w1)"
    by (cases "read_field slot w") auto
  show ?thesis
  proof (cases "\<exists>object. r = Inr (JObject object)")
    case True
    then obtain object where "r = Inr (JObject object)" by blast
    with rt with_defineProperty_defines [where routine = routine and c = True, OF rd, of object slot' w']
    show ?thesis by (simp add: defineProperty_configurable)
  next
    case False
    with with_defineProperty_passes [where routine = routine and c = True, OF rt] rt
    show ?thesis by simp
  qed
qed

text \<open>
  On a configurable field the routines with \<^verbatim>\<open>Object.defineProperty\<close> are the routines
  of before, and on an intercepted field \<open>afterGet\<close> keeps the accessor functions, so that
  \<^verbatim>\<open>Object.defineProperty\<close> returns whatever the attribute is.
\<close>

lemma install_on_configurable:
  "afterGet_on True object property cb slot w = afterGet object property cb slot w"
  "beforeSet_on True object property cb slot w = beforeSet object property cb slot w"
  "afterSet_on True object property cb slot w = afterSet object property cb slot w"
  by (simp_all add: afterGet_on_def beforeSet_on_def afterSet_on_def with_defineProperty_configurable)

lemma afterGet_on_intercepted:
  "afterGet_on c object property cb (Hooked g s) w = afterGet object property cb (Hooked g s) w"
proof -
  obtain r1 g1 w1 where gt: "get g w = (r1, g1, w1)"
    by (cases "get g w") auto
  then have rd: "read_field (Hooked g s) w = (r1, Hooked g1 s, w1)" by simp
  show ?thesis
  proof (cases r1)
    case (Inl e)
    with rd have "afterGet object property cb (Hooked g s) w = (Inl e, Hooked g1 s, w1)"
      by (simp add: afterGet_throws)
    from with_defineProperty_passes [where routine = "afterGet object property cb" and c = c, OF this]
    show ?thesis using \<open>afterGet object property cb (Hooked g s) w = (Inl e, Hooked g1 s, w1)\<close>
      by (simp add: afterGet_on_def)
  next
    case (Inr v)
    with rd afterGet_returns [of "Hooked g s" w v "Hooked g1 s" w1 object "property" cb]
    have ag: "afterGet object property cb (Hooked g s) w
      = (Inr (JObject object),
         Hooked (g1\<lparr>get_after := get_after g1 @ [handler cb object property]\<rparr>) s, w1)"
      by (simp add: ensure_set_def)
    have "defineProperty c (Hooked g1 s)
        (Hooked (g1\<lparr>get_after := get_after g1 @ [handler cb object property]\<rparr>) s)
      = Inr (Hooked (g1\<lparr>get_after := get_after g1 @ [handler cb object property]\<rparr>) s)"
      by (cases s) simp_all
    with with_defineProperty_defines [where routine = "afterGet object property cb" and c = c,
        OF rd ag] ag
    show ?thesis by (simp add: afterGet_on_def)
  qed
qed




end
